theory Spec2Isabelle
  imports Complex_Main "HOL-Library.Stream"
begin

section \<open>Text and integers\<close>

text \<open>
  A Python \<open>str\<close> is a sequence of code points. A code point is a natural number here, so
  the Cyrillic names of \<open>get_random_user\<close> are ordinary values; \<open>ascii\<close> embeds an ASCII
  literal.
\<close>

type_synonym str = "nat list"

definition ascii :: "string \<Rightarrow> str" where
  "ascii s = map of_char s"

datatype error =
    ValueError | IndexError | ConnectionError | ResponseError | JSONDecodeError | RecursionError
  | UnicodeEncodeError

text \<open>
  A Unicode scalar value is a code point that is not a surrogate. \<open>s.encode("utf-8")\<close>
  raises \<open>UnicodeEncodeError\<close> unless the string consists of scalar values.
\<close>

definition scalar :: "nat \<Rightarrow> bool" where
  "scalar c \<longleftrightarrow> c < 55296 \<or> (57344 \<le> c \<and> c < 1114112)"

definition encodable :: "str \<Rightarrow> bool" where
  "encodable s \<longleftrightarrow> list_all scalar s"

definition is_digit :: "nat \<Rightarrow> bool" where
  "is_digit c \<longleftrightarrow> 48 \<le> c \<and> c \<le> 57"

text \<open>\<open>str(n)\<close> and \<open>f"{n}"\<close> for an integer: the decimal digits, most significant first.\<close>

fun digits :: "nat \<Rightarrow> str" where
  "digits n = (if n < 10 then [48 + n] else digits (n div 10) @ [48 + n mod 10])"

declare digits.simps [simp del]

definition str_of_int :: "int \<Rightarrow> str" where
  "str_of_int n = (if n < 0 then 45 # digits (nat (- n)) else digits (nat n))"

definition nat_of_digits :: "str \<Rightarrow> nat" where
  "nat_of_digits ds = foldl (\<lambda>a c. 10 * a + (c - 48)) 0 ds"

text \<open>
  \<open>int(s)\<close> on a string, base 10: white space around, an optional sign, then digits, where
  single underscores may stand between digits. The model is that of a string of ASCII
  characters: white space is the tab, the four characters from 10 to 13 and the space, and
  a digit is an ASCII digit.
\<close>

definition is_space :: "nat \<Rightarrow> bool" where
  "is_space c \<longleftrightarrow> (9 \<le> c \<and> c \<le> 13) \<or> c = 32"

definition strip :: "str \<Rightarrow> str" where
  "strip s = rev (dropWhile is_space (rev (dropWhile is_space s)))"

fun int_body :: "str \<Rightarrow> bool" where
  "int_body [] = False"
| "int_body [c] = is_digit c"
| "int_body (c # d # cs) = (is_digit c \<and> (if d = 95 then int_body cs else int_body (d # cs)))"

definition int_of_str :: "str \<Rightarrow> error + int" where
  "int_of_str s =
     (let t = strip s;
          (neg, body) = (case t of
                           [] \<Rightarrow> (False, [])
                         | c # cs \<Rightarrow> if c = 45 then (True, cs)
                                     else if c = 43 then (False, cs) else (False, t))
      in if int_body body
         then Inr ((if neg then - 1 else 1) * int (nat_of_digits (filter is_digit body)))
         else Inl ValueError)"

section \<open>JSON: \<open>json.dumps\<close> and \<open>json.loads\<close>\<close>

text \<open>
  The values of Python's \<open>json\<close> module. A \<open>dict\<close> is the list of its items in insertion
  order, with distinct keys. A floating-point number is kept as its literal text, and the
  limit of Python on the number of digits of an integer is not modelled.
\<close>

datatype json =
    JNull | JBool bool | JInt int | JFloat str | JStr str
  | JList "json list" | JObj "(str \<times> json) list"

fun join :: "str \<Rightarrow> str list \<Rightarrow> str" where
  "join sep [] = []"
| "join sep [x] = x"
| "join sep (x # y # ys) = x @ sep @ join sep (y # ys)"

definition hex_digit :: "nat \<Rightarrow> nat" where
  "hex_digit d = (if d < 10 then 48 + d else 87 + d)"

definition hex4 :: "nat \<Rightarrow> str" where
  "hex4 n = [hex_digit (n div 4096 mod 16), hex_digit (n div 256 mod 16),
             hex_digit (n div 16 mod 16), hex_digit (n mod 16)]"

text \<open>
  \<open>ensure_ascii\<close> is on by default: everything outside the printable ASCII range is written
  as an escape, a code point above \<open>0xFFFF\<close> as a surrogate pair.
  Code points: 34 is the double quote, 92 the backslash, 117 the letter u.
\<close>

definition escape_char :: "nat \<Rightarrow> str" where
  "escape_char c =
     (if c = 34 then [92, 34]
      else if c = 92 then [92, 92]
      else if c = 10 then [92, 110]
      else if c = 13 then [92, 114]
      else if c = 9 then [92, 116]
      else if c = 12 then [92, 102]
      else if c = 8 then [92, 98]
      else if 32 \<le> c \<and> c \<le> 126 then [c]
      else if c < 65536 then 92 # 117 # hex4 c
      else 92 # 117 # hex4 (55296 + (c - 65536) div 1024 mod 1024)
           @ 92 # 117 # hex4 (56320 + (c - 65536) mod 1024))"

definition encode_basestring_ascii :: "str \<Rightarrow> str" where
  "encode_basestring_ascii s = 34 # concat (map escape_char s) @ [34]"

fun json_dumps :: "json \<Rightarrow> str" where
  "json_dumps JNull = ascii ''null''"
| "json_dumps (JBool b) = (if b then ascii ''true'' else ascii ''false'')"
| "json_dumps (JInt n) = str_of_int n"
| "json_dumps (JFloat t) = t"
| "json_dumps (JStr s) = encode_basestring_ascii s"
| "json_dumps (JList vs) = ascii ''['' @ join (ascii '', '') (map json_dumps vs) @ ascii '']''"
| "json_dumps (JObj kvs) =
     ascii ''{''
     @ join (ascii '', '')
         (map (\<lambda>(k, v). encode_basestring_ascii k @ ascii '': '' @ json_dumps v) kvs)
     @ ascii ''}''"

subsection \<open>The decoder\<close>

definition is_ws :: "nat \<Rightarrow> bool" where
  "is_ws c \<longleftrightarrow> c = 32 \<or> c = 9 \<or> c = 10 \<or> c = 13"

definition skip_ws :: "str \<Rightarrow> str" where
  "skip_ws s = dropWhile is_ws s"

definition hex_value :: "nat \<Rightarrow> nat option" where
  "hex_value c =
     (if 48 \<le> c \<and> c \<le> 57 then Some (c - 48)
      else if 97 \<le> c \<and> c \<le> 102 then Some (c - 87)
      else if 65 \<le> c \<and> c \<le> 70 then Some (c - 55)
      else None)"

definition hex4_value :: "nat \<Rightarrow> nat \<Rightarrow> nat \<Rightarrow> nat \<Rightarrow> nat option" where
  "hex4_value a b c d =
     (case (hex_value a, hex_value b, hex_value c, hex_value d) of
        (Some x, Some y, Some z, Some w) \<Rightarrow> Some (((x * 16 + y) * 16 + z) * 16 + w)
      | _ \<Rightarrow> None)"

definition unescape :: "nat \<Rightarrow> nat option" where
  "unescape e =
     (if e = 34 then Some 34
      else if e = 92 then Some 92
      else if e = 47 then Some 47
      else if e = 98 then Some 8
      else if e = 102 then Some 12
      else if e = 110 then Some 10
      else if e = 114 then Some 13
      else if e = 116 then Some 9
      else None)"

definition cons_char :: "nat \<Rightarrow> error + str \<times> str \<Rightarrow> error + str \<times> str" where
  "cons_char c res = (case res of Inl e \<Rightarrow> Inl e | Inr (t, r) \<Rightarrow> Inr (c # t, r))"

text \<open>
  \<open>scanstring\<close> (strict mode) reads a string literal after its opening quote and returns
  the decoded string with the text after the closing quote. A \<open>\\u\<close> escape of a high
  surrogate that is followed at once by a \<open>\\u\<close> escape of a low surrogate is one code point.
\<close>

fun scanstring :: "str \<Rightarrow> error + str \<times> str" where
  "scanstring [] = Inl JSONDecodeError"
| "scanstring (c # cs) =
     (if c = 34 then Inr ([], cs)
      else if c = 92 then
        (case cs of
           [] \<Rightarrow> Inl JSONDecodeError
         | e # es \<Rightarrow>
             if e = 117 then
               (case es of
                  x3 # x2 # x1 # x0 # r \<Rightarrow>
                    (case hex4_value x3 x2 x1 x0 of
                       None \<Rightarrow> Inl JSONDecodeError
                     | Some u \<Rightarrow>
                         (case r of
                            b # l # y3 # y2 # y1 # y0 # r2 \<Rightarrow>
                              (case hex4_value y3 y2 y1 y0 of
                                 Some u2 \<Rightarrow>
                                   if 55296 \<le> u \<and> u \<le> 56319 \<and> b = 92 \<and> l = 117
                                      \<and> 56320 \<le> u2 \<and> u2 \<le> 57343
                                   then cons_char (65536 + (u - 55296) * 1024 + (u2 - 56320))
                                          (scanstring r2)
                                   else cons_char u (scanstring r)
                               | None \<Rightarrow> cons_char u (scanstring r))
                          | _ \<Rightarrow> cons_char u (scanstring r)))
                | _ \<Rightarrow> Inl JSONDecodeError)
             else (case unescape e of
                     None \<Rightarrow> Inl JSONDecodeError
                   | Some x \<Rightarrow> cons_char x (scanstring es)))
      else if c < 32 then Inl JSONDecodeError
      else cons_char c (scanstring cs))"

text \<open>
  A number literal: an optional minus sign, an integer part without leading zeros, an
  optional fraction and an optional exponent. Without fraction and exponent it is an \<open>int\<close>.
\<close>

definition int_part :: "str \<Rightarrow> str" where
  "int_part s =
     (case s of
        [] \<Rightarrow> []
      | c # cs \<Rightarrow> if c = 48 then [48] else if is_digit c then takeWhile is_digit s else [])"

definition frac_part :: "str \<Rightarrow> str" where
  "frac_part s =
     (case s of
        c # d # cs \<Rightarrow> if c = 46 \<and> is_digit d then 46 # takeWhile is_digit (d # cs) else []
      | _ \<Rightarrow> [])"

definition exp_part :: "str \<Rightarrow> str" where
  "exp_part s =
     (case s of
        [] \<Rightarrow> []
      | c # cs \<Rightarrow>
          if c = 101 \<or> c = 69
          then (let (sg, ds) = (case cs of
                                  [] \<Rightarrow> ([], cs)
                                | e # es \<Rightarrow> if e = 43 \<or> e = 45 then ([e], es) else ([], cs));
                    digs = takeWhile is_digit ds
                in if digs = [] then [] else c # sg @ digs)
          else [])"

definition scan_number :: "str \<Rightarrow> (json \<times> str) option" where
  "scan_number s =
     (let (sign, s1) = (case s of
                          [] \<Rightarrow> ([], s)
                        | c # cs \<Rightarrow> if c = 45 then ([45], cs) else ([], s));
          ip = int_part s1;
          s2 = drop (length ip) s1;
          frac = frac_part s2;
          s3 = drop (length frac) s2;
          ex = exp_part s3;
          s4 = drop (length ex) s3
      in if ip = [] then None
         else if frac = [] \<and> ex = []
         then Some (JInt ((if sign = [] then 1 else - 1) * int (nat_of_digits ip)), s2)
         else Some (JFloat (sign @ ip @ frac @ ex), s4))"

fun strip_prefix :: "str \<Rightarrow> str \<Rightarrow> str option" where
  "strip_prefix [] s = Some s"
| "strip_prefix (p # ps) [] = None"
| "strip_prefix (p # ps) (c # cs) = (if p = c then strip_prefix ps cs else None)"

text \<open>\<open>dict(pairs)\<close>: a later item with a key already present replaces the value in place.\<close>

fun dict_set :: "(str \<times> json) list \<Rightarrow> str \<Rightarrow> json \<Rightarrow> (str \<times> json) list" where
  "dict_set [] k v = [(k, v)]"
| "dict_set ((k', v') # d) k v =
     (if k' = k then (k', v) # d else (k', v') # dict_set d k v)"

definition dict_of_pairs :: "(str \<times> json) list \<Rightarrow> (str \<times> json) list" where
  "dict_of_pairs ps = foldl (\<lambda>d (k, v). dict_set d k v) [] ps"

text \<open>
  The recursive descent of the decoder. The first argument bounds the number of nested
  calls. \<open>json_loads\<close> starts it above twice the length of the text: a call reads at
  least one character before it makes two more nested calls. Python's own limit on the
  depth of nesting is not modelled.
  \<open>scan_members\<close> starts after the opening quote of a key, \<open>scan_elements\<close> at an element.
  Code points: 123 and 125 are the braces, 91 and 93 the brackets, 58 the colon, 44 the comma.
\<close>

fun scan_once :: "nat \<Rightarrow> str \<Rightarrow> error + json \<times> str"
  and scan_members :: "nat \<Rightarrow> str \<Rightarrow> (str \<times> json) list \<Rightarrow> error + json \<times> str"
  and scan_elements :: "nat \<Rightarrow> str \<Rightarrow> json list \<Rightarrow> error + json \<times> str"
where
  "scan_once 0 s = Inl RecursionError"
| "scan_once (Suc n) s =
     (case s of
        [] \<Rightarrow> Inl JSONDecodeError
      | c # cs \<Rightarrow>
          if c = 34 then
            (case scanstring cs of Inl e \<Rightarrow> Inl e | Inr (t, r) \<Rightarrow> Inr (JStr t, r))
          else if c = 123 then
            (case skip_ws cs of
               [] \<Rightarrow> Inl JSONDecodeError
             | d # r \<Rightarrow> if d = 125 then Inr (JObj [], r)
                        else if d = 34 then scan_members n r []
                        else Inl JSONDecodeError)
          else if c = 91 then
            (case skip_ws cs of
               [] \<Rightarrow> Inl JSONDecodeError
             | d # r \<Rightarrow> if d = 93 then Inr (JList [], r)
                        else scan_elements n (d # r) [])
          else
            (case strip_prefix (ascii ''null'') s of
               Some r \<Rightarrow> Inr (JNull, r)
             | None \<Rightarrow>
            (case strip_prefix (ascii ''true'') s of
               Some r \<Rightarrow> Inr (JBool True, r)
             | None \<Rightarrow>
            (case strip_prefix (ascii ''false'') s of
               Some r \<Rightarrow> Inr (JBool False, r)
             | None \<Rightarrow>
            (case scan_number s of
               Some (v, r) \<Rightarrow> Inr (v, r)
             | None \<Rightarrow>
            (case strip_prefix (ascii ''NaN'') s of
               Some r \<Rightarrow> Inr (JFloat (ascii ''NaN''), r)
             | None \<Rightarrow>
            (case strip_prefix (ascii ''Infinity'') s of
               Some r \<Rightarrow> Inr (JFloat (ascii ''Infinity''), r)
             | None \<Rightarrow>
            (case strip_prefix (ascii ''-Infinity'') s of
               Some r \<Rightarrow> Inr (JFloat (ascii ''-Infinity''), r)
             | None \<Rightarrow> Inl JSONDecodeError))))))))"
| "scan_members 0 s acc = Inl RecursionError"
| "scan_members (Suc n) s acc =
     (case scanstring s of
        Inl e \<Rightarrow> Inl e
      | Inr (key, r1) \<Rightarrow>
          (case skip_ws r1 of
             [] \<Rightarrow> Inl JSONDecodeError
           | c # r2 \<Rightarrow>
               if c \<noteq> 58 then Inl JSONDecodeError
               else
                 (case scan_once n (skip_ws r2) of
                    Inl e \<Rightarrow> Inl e
                  | Inr (v, r3) \<Rightarrow>
                      (case skip_ws r3 of
                         [] \<Rightarrow> Inl JSONDecodeError
                       | d # r4 \<Rightarrow>
                           if d = 125 then Inr (JObj (dict_of_pairs (acc @ [(key, v)])), r4)
                           else if d = 44 then
                             (case skip_ws r4 of
                                [] \<Rightarrow> Inl JSONDecodeError
                              | q # r5 \<Rightarrow> if q = 34 then scan_members n r5 (acc @ [(key, v)])
                                          else Inl JSONDecodeError)
                           else Inl JSONDecodeError))))"
| "scan_elements 0 s acc = Inl RecursionError"
| "scan_elements (Suc n) s acc =
     (case scan_once n s of
        Inl e \<Rightarrow> Inl e
      | Inr (v, r) \<Rightarrow>
          (case skip_ws r of
             [] \<Rightarrow> Inl JSONDecodeError
           | d # r2 \<Rightarrow>
               if d = 93 then Inr (JList (acc @ [v]), r2)
               else if d = 44 then scan_elements n (skip_ws r2) (acc @ [v])
               else Inl JSONDecodeError))"

definition json_loads :: "str \<Rightarrow> error + json" where
  "json_loads s =
     (case scan_once (Suc (2 * length s)) (skip_ws s) of
        Inl e \<Rightarrow> Inl e
      | Inr (v, r) \<Rightarrow> if skip_ws r = [] then Inr v else Inl JSONDecodeError)"

section \<open>The world of the process\<close>

text \<open>
  \<open>ConnectionPool\<close> keeps the configuration it was created with. \<open>pool_id\<close> is the identity
  of the pool object: every pool created gets a fresh one.
\<close>

record pool =
  pool_id :: nat
  url :: str
  password :: "str option"
  db :: int
  decode_responses :: bool
  max_connections :: nat

record redis =
  connection_pool :: pool

text \<open>
  Everything the code reads or changes outside its local variables:
  \<^item> \<open>environ\<close>: the process environment (\<open>os.getenv\<close>);
  \<^item> \<open>RedisClient_pool\<close>: the class attribute \<open>RedisClient._pool\<close>;
  \<^item> \<open>pools_created\<close>: how many \<open>ConnectionPool\<close> objects have been created;
  \<^item> \<open>disconnected\<close>: the pools on which \<open>disconnect()\<close> has been called, in order;
  \<^item> \<open>now\<close>: the clock, in seconds since its epoch; the process and the server read
    the same clock;
  \<^item> \<open>entries\<close>: the keyspace of the Redis server, each value with the instant at which
    it expires;
  \<^item> \<open>reachable\<close>: for each command to come, whether it reaches the server;
  \<^item> \<open>rng\<close>: the draws to come of the generator behind the \<open>random\<close> module.

  There is one server with one keyspace of string values: the commands sent through any
  pool reach it. An expired entry is invisible; its removal is not modelled. A command
  that does not reach the server raises \<open>ConnectionError\<close> and leaves the keyspace alone.
\<close>

record world =
  environ :: "str \<rightharpoonup> str"
  RedisClient_pool :: "pool option"
  pools_created :: nat
  disconnected :: "nat list"
  now :: real
  entries :: "str \<rightharpoonup> (str \<times> real)"
  reachable :: "bool stream"
  rng :: "nat stream"

text \<open>A call returns a value or raises, and leaves a new world.\<close>

type_synonym 'a io = "world \<Rightarrow> (error + 'a) \<times> world"

definition io_return :: "'a \<Rightarrow> 'a io" where
  "io_return x w = (Inr x, w)"

definition io_raise :: "error \<Rightarrow> 'a io" where
  "io_raise e w = (Inl e, w)"

definition io_bind :: "'a io \<Rightarrow> ('a \<Rightarrow> 'b io) \<Rightarrow> 'b io" where
  "io_bind m f w = (case m w of (Inl e, w') \<Rightarrow> (Inl e, w') | (Inr x, w') \<Rightarrow> f x w')"

definition io_of_result :: "error + 'a \<Rightarrow> 'a io" where
  "io_of_result r w = (r, w)"

text \<open>Time that passes between two calls.\<close>

definition elapse :: "real \<Rightarrow> world \<Rightarrow> world" where
  "elapse d w = w\<lparr>now := now w + d\<rparr>"

subsection \<open>The \<open>random\<close> module and \<open>asyncio.sleep\<close>\<close>

text \<open>
  One draw of the generator is an arbitrary natural number. \<open>randbelow n\<close> reduces it
  below \<open>n\<close>; \<open>random()\<close> has 53 bits and lies in \<open>[0, 1)\<close>. Floating-point rounding is not
  modelled: \<open>uniform\<close> is computed in the reals.
\<close>

definition randbelow :: "nat \<Rightarrow> nat io" where
  "randbelow n w = (Inr (shd (rng w) mod n), w\<lparr>rng := stl (rng w)\<rparr>)"

definition random_randint :: "int \<Rightarrow> int \<Rightarrow> int io" where
  "random_randint a b =
     (if b < a then io_raise ValueError
      else io_bind (randbelow (nat (b - a + 1))) (\<lambda>k. io_return (a + int k)))"

definition random_choice :: "'a list \<Rightarrow> 'a io" where
  "random_choice seq =
     (if seq = [] then io_raise IndexError
      else io_bind (randbelow (length seq)) (\<lambda>i. io_return (seq ! i)))"

definition random_random :: "real io" where
  "random_random =
     io_bind (randbelow 9007199254740992) (\<lambda>k. io_return (real k / 9007199254740992))"

definition random_uniform :: "real \<Rightarrow> real \<Rightarrow> real io" where
  "random_uniform a b = io_bind random_random (\<lambda>u. io_return (a + (b - a) * u))"

definition asyncio_sleep :: "real \<Rightarrow> unit io" where
  "asyncio_sleep delay w = (Inr (), w\<lparr>now := now w + max 0 delay\<rparr>)"

subsection \<open>The Redis commands \<open>GET\<close> and \<open>SETEX\<close>\<close>

text \<open>
  A command first takes a connection from the pool, which fails with \<open>ConnectionError\<close>
  when the server cannot be reached. The client then encodes the arguments as UTF-8: a
  key or a value that cannot be encoded raises \<open>UnicodeEncodeError\<close> and nothing is sent.
  The limit of the server on the size of a key or a value is not modelled.
\<close>

text \<open>What the server holds under a key at the present instant, and for how long.\<close>

definition lookup :: "world \<Rightarrow> str \<Rightarrow> str option" where
  "lookup w key =
     (case entries w key of
        None \<Rightarrow> None
      | Some (v, expires_at) \<Rightarrow> if now w < expires_at then Some v else None)"

definition ttl :: "world \<Rightarrow> str \<Rightarrow> real option" where
  "ttl w key =
     (case entries w key of
        None \<Rightarrow> None
      | Some (v, expires_at) \<Rightarrow> if now w < expires_at then Some (expires_at - now w) else None)"

definition redis_get :: "redis \<Rightarrow> str \<Rightarrow> str option io" where
  "redis_get r key w =
     (let w' = w\<lparr>reachable := stl (reachable w)\<rparr>
      in if \<not> shd (reachable w) then (Inl ConnectionError, w')
         else if \<not> encodable key then (Inl UnicodeEncodeError, w')
         else (Inr (lookup w key), w'))"

text \<open>
  \<open>SETEX\<close> takes its time in seconds as a signed 64-bit integer and keeps the expiry in
  milliseconds: it answers a time that is not positive, or above \<open>LLONG_MAX / 1000\<close>, or
  outside the 64 bits, with an error and stores nothing. The server also refuses a time
  whose expiry instant, its clock plus the time, is beyond \<open>LLONG_MAX\<close> milliseconds. That
  last check is not part of \<open>redis_setex\<close>: for the times of 30 and 60 seconds that the
  handlers pass it needs a clock within a minute of the end of the 64 bits, some
  292 million years after the epoch. \<open>expiry_fits\<close> says that the check passes; a property
  of \<open>SETEX\<close> for an arbitrary time assumes it.
\<close>

definition max_expire_seconds :: int where
  "max_expire_seconds = 9223372036854775807 div 1000"

definition expiry_fits :: "world \<Rightarrow> int \<Rightarrow> bool" where
  "expiry_fits w seconds \<longleftrightarrow>
     0 \<le> now w \<and> (now w + real_of_int seconds) * 1000 \<le> 9223372036854775807"

definition redis_setex :: "redis \<Rightarrow> str \<Rightarrow> int \<Rightarrow> str \<Rightarrow> unit io" where
  "redis_setex r key seconds val w =
     (let w' = w\<lparr>reachable := stl (reachable w)\<rparr>
      in if \<not> shd (reachable w) then (Inl ConnectionError, w')
         else if \<not> (encodable key \<and> encodable val) then (Inl UnicodeEncodeError, w')
         else if seconds \<le> 0 \<or> max_expire_seconds < seconds then (Inl ResponseError, w')
         else (Inr (), w'\<lparr>entries := (entries w)(key \<mapsto> (val, now w + real_of_int seconds))\<rparr>))"

section \<open>The program\<close>

subsection \<open>\<open>RedisClient\<close>\<close>

text \<open>How an f-string prints the result of \<open>os.getenv\<close>.\<close>

definition format_getenv :: "str option \<Rightarrow> str" where
  "format_getenv v = (case v of None \<Rightarrow> ascii ''None'' | Some s \<Rightarrow> s)"

text \<open>
  \<open>ConnectionPool.from_url\<close> opens no connection, but it parses the URL and raises
  \<open>ValueError\<close> for a port that is not a number up to 65535. The port is the text after
  the first colon of the host part, which ends at the first slash, question mark or hash
  (47, 63, 35) and starts after the last at sign (64); an empty port is accepted.
  Not modelled: hosts in square brackets, and the options that the URL itself may carry
  in its user information, path and query, which would replace the keyword arguments.
  They are absent when \<open>REDIS_HOST\<close> is a plain host name and \<open>REDIS_PORT\<close> a number.
\<close>

definition url_port :: "str \<Rightarrow> str" where
  "url_port address =
     (let netloc = takeWhile (\<lambda>c. c \<noteq> 47 \<and> c \<noteq> 63 \<and> c \<noteq> 35) address;
          hostinfo = rev (takeWhile (\<lambda>c. c \<noteq> 64) (rev netloc))
      in drop 1 (dropWhile (\<lambda>c. c \<noteq> 58) hostinfo))"

definition port_ok :: "str \<Rightarrow> bool" where
  "port_ok p \<longleftrightarrow> p = [] \<or> (list_all is_digit p \<and> nat_of_digits p \<le> 65535)"

text \<open>
  \<open>RedisClient.get_redis\<close>. The arguments of \<open>from_url\<close> are evaluated first, \<open>int(...)\<close>
  among them; whichever of the two raises, \<open>_pool\<close> stays \<open>None\<close>.
\<close>

definition get_redis :: "redis io" where
  "get_redis w =
     (case RedisClient_pool w of
        Some p \<Rightarrow> (Inr \<lparr>connection_pool = p\<rparr>, w)
      | None \<Rightarrow>
          (let address = format_getenv (environ w (ascii ''REDIS_HOST''))
                         @ ascii '':'' @ format_getenv (environ w (ascii ''REDIS_PORT''));
               u = ascii ''redis://'' @ address;
               pw = (case environ w (ascii ''REDIS_PASSWORD'') of
                       None \<Rightarrow> None
                     | Some s \<Rightarrow> if s = [] then None else Some s)
           in case (case environ w (ascii ''REDIS_DB'') of
                      None \<Rightarrow> Inr 0
                    | Some s \<Rightarrow> int_of_str s) of
                Inl e \<Rightarrow> (Inl e, w)
              | Inr d \<Rightarrow>
                  if \<not> port_ok (url_port address) then (Inl ValueError, w)
                  else
                    (let p = \<lparr>pool_id = pools_created w, url = u, password = pw, db = d,
                              decode_responses = True, max_connections = 20\<rparr>
                     in (Inr \<lparr>connection_pool = p\<rparr>,
                         w\<lparr>RedisClient_pool := Some p,
                           pools_created := Suc (pools_created w)\<rparr>))))"

text \<open>\<open>RedisClient.close\<close>.\<close>

definition close :: "unit io" where
  "close w =
     (case RedisClient_pool w of
        None \<Rightarrow> (Inr (), w)
      | Some p \<Rightarrow>
          (Inr (), w\<lparr>disconnected := disconnected w @ [pool_id p],
                     RedisClient_pool := None\<rparr>))"

subsection \<open>The cache accessors\<close>

definition get_cached_data :: "str \<Rightarrow> str option io" where
  "get_cached_data key = io_bind get_redis (\<lambda>redis. redis_get redis key)"

definition set_cached_data :: "str \<Rightarrow> str \<Rightarrow> int \<Rightarrow> unit io" where
  "set_cached_data key val expire_seconds =
     io_bind get_redis (\<lambda>redis. redis_setex redis key expire_seconds val)"

subsection \<open>The handlers\<close>

record response =
  data :: json
  source :: str

text \<open>\<open>if cached:\<close> holds for a string that is not empty.\<close>

definition truthy :: "str option \<Rightarrow> bool" where
  "truthy cached = (case cached of None \<Rightarrow> False | Some s \<Rightarrow> s \<noteq> [])"

definition get_random_number :: "response io" where
  "get_random_number =
     (let cache_key = ascii ''random_number'' in
      io_bind (get_cached_data cache_key) (\<lambda>cached.
        if truthy cached then
          io_bind (io_of_result (json_loads (the cached))) (\<lambda>v.
            io_return \<lparr>data = v, source = ascii ''cache''\<rparr>)
        else
          io_bind (random_uniform (1 / 2) 2) (\<lambda>delay.
          io_bind (asyncio_sleep delay) (\<lambda>_.
          io_bind (random_randint 1 100) (\<lambda>n.
            let d = JObj [(ascii ''number'', JInt n)] in
            io_bind (set_cached_data cache_key (json_dumps d) 30) (\<lambda>_.
              io_return \<lparr>data = d, source = ascii ''generated''\<rparr>))))))"

definition first_names :: "str list" where
  "first_names =
     [[1040, 1083, 1077, 1082, 1089, 1077, 1081],
      [1052, 1072, 1088, 1080, 1103],
      [1048, 1074, 1072, 1085],
      [1054, 1083, 1100, 1075, 1072],
      [1044, 1084, 1080, 1090, 1088, 1080, 1081]]"

definition last_names :: "str list" where
  "last_names =
     [[1055, 1077, 1090, 1088, 1086, 1074],
      [1057, 1080, 1076, 1086, 1088, 1086, 1074, 1072],
      [1048, 1074, 1072, 1085, 1086, 1074],
      [1057, 1084, 1080, 1088, 1085, 1086, 1074, 1072],
      [1050, 1091, 1079, 1085, 1077, 1094, 1086, 1074]]"

definition get_random_user :: "response io" where
  "get_random_user =
     (let cache_key = ascii ''random_user'' in
      io_bind (get_cached_data cache_key) (\<lambda>cached.
        if truthy cached then
          io_bind (io_of_result (json_loads (the cached))) (\<lambda>v.
            io_return \<lparr>data = v, source = ascii ''cache''\<rparr>)
        else
          io_bind (random_uniform (1 / 2) 3) (\<lambda>delay.
          io_bind (asyncio_sleep delay) (\<lambda>_.
          io_bind (random_randint 1000 9999) (\<lambda>uid.
          io_bind (random_choice first_names) (\<lambda>first.
          io_bind (random_choice last_names) (\<lambda>last.
          io_bind (random_randint 18 65) (\<lambda>age.
          io_bind (random_randint 100 999) (\<lambda>m.
            let d = JObj [(ascii ''id'', JInt uid),
                          (ascii ''name'', JStr (first @ ascii '' '' @ last)),
                          (ascii ''age'', JInt age),
                          (ascii ''email'',
                           JStr (ascii ''user'' @ str_of_int m @ ascii ''@example.com''))] in
            io_bind (set_cached_data cache_key (json_dumps d) 60) (\<lambda>_.
              io_return \<lparr>data = d, source = ascii ''generated''\<rparr>))))))))))"

section \<open>Vocabulary of the properties\<close>

text \<open>
  The text that follows a number in an object: nothing, a comma or a closing brace.
\<close>

definition delim :: "str \<Rightarrow> bool" where
  "delim r = (case r of [] \<Rightarrow> True | c # _ \<Rightarrow> c = 44 \<or> c = 125)"

definition flat :: "json \<Rightarrow> bool" where
  "flat v = (case v of JInt n \<Rightarrow> True | JStr s \<Rightarrow> (\<forall>c\<in>set s. scalar c) | _ \<Rightarrow> False)"

definition flat_object :: "(str \<times> json) list \<Rightarrow> bool" where
  "flat_object kvs \<longleftrightarrow>
     distinct (map fst kvs) \<and> (\<forall>(k, v)\<in>set kvs. (\<forall>c\<in>set k. scalar c) \<and> flat v)"

definition member_text :: "str \<times> json \<Rightarrow> str" where
  "member_text = (\<lambda>(k, v). encode_basestring_ascii k @ ascii '': '' @ json_dumps v)"

definition random_delay :: "real \<Rightarrow> real \<Rightarrow> world \<Rightarrow> real" where
  "random_delay a b w =
     max 0 (a + (b - a) * (real (shd (rng w) mod 9007199254740992) / 9007199254740992))"

definition user_payload :: "int \<Rightarrow> str \<Rightarrow> str \<Rightarrow> int \<Rightarrow> int \<Rightarrow> json" where
  "user_payload uid first_name last_name age m =
     JObj [(ascii ''id'', JInt uid),
           (ascii ''name'', JStr (first_name @ ascii '' '' @ last_name)),
           (ascii ''age'', JInt age),
           (ascii ''email'', JStr (ascii ''user'' @ str_of_int m @ ascii ''@example.com''))]"

text \<open>A process that has not yet acquired a connection, in front of an empty server that
  every command reaches; every draw of the generator is 41.\<close>

definition world0 :: world where
  "world0 =
     \<lparr>environ = [ascii ''REDIS_HOST'' \<mapsto> ascii ''localhost'', ascii ''REDIS_PORT'' \<mapsto> ascii ''6379''],
      RedisClient_pool = None, pools_created = 0, disconnected = [], now = 0,
      entries = Map.empty, reachable = sconst True, rng = sconst 41\<rparr>"

text \<open>The pool that \<open>world0\<close> creates on its first acquire, and the world it leaves.\<close>

definition pool0 :: pool where
  "pool0 = \<lparr>pool_id = 0, url = ascii ''redis://localhost:6379'', password = None, db = 0,
            decode_responses = True, max_connections = 20\<rparr>"

definition world1 :: world where
  "world1 = world0\<lparr>RedisClient_pool := Some pool0, pools_created := 1\<rparr>"

text \<open>What can happen to the connection manager: the two calls of \<open>RedisClient\<close>, and a
  change of the environment from outside.\<close>

datatype event = Acquire | Shutdown | Putenv str str

fun step :: "event \<Rightarrow> world \<Rightarrow> world" where
  "step Acquire w = snd (get_redis w)"
| "step Shutdown w = snd (close w)"
| "step (Putenv k v) w = w\<lparr>environ := (environ w)(k \<mapsto> v)\<rparr>"

definition run :: "event list \<Rightarrow> world \<Rightarrow> world" where
  "run evs w = fold step evs w"

text \<open>The answers that \<open>world0\<close> gets from the two handlers.\<close>

definition number0 :: response where
  "number0 = \<lparr>data = JObj [(ascii ''number'', JInt 42)], source = ascii ''generated''\<rparr>"

definition user0 :: response where
  "user0 =
     \<lparr>data = JObj [(ascii ''id'', JInt 1041),
                   (ascii ''name'',
                    JStr ([1052, 1072, 1088, 1080, 1103] @ ascii '' ''
                          @ [1057, 1080, 1076, 1086, 1088, 1086, 1074, 1072])),
                   (ascii ''age'', JInt 59),
                   (ascii ''email'', JStr (ascii ''user'' @ str_of_int 141 @ ascii ''@example.com''))],
      source = ascii ''generated''\<rparr>"

text \<open>A server that no command reaches, and one that the first command reaches and no
  later one.\<close>

definition world_down :: world where
  "world_down = world0\<lparr>reachable := sconst False\<rparr>"

definition world_flaky :: world where
  "world_flaky = world0\<lparr>reachable := True ## sconst False\<rparr>"

section \<open>Decimal numbers are read back\<close>

lemma digits_is_digit: "c \<in> set (digits n) \<Longrightarrow> is_digit c"
proof (induction n rule: digits.induct)
  case (1 n)
  show ?case
  proof (cases "n < 10")
    case True
    with "1.prems" show ?thesis by (simp add: digits.simps [of n] is_digit_def)
  next
    case False
    with "1.prems" "1.IH" show ?thesis
      by (auto simp: digits.simps [of n] is_digit_def)
  qed
qed

lemma digits_hd:
  "\<exists>c cs. digits n = c # cs \<and> is_digit c \<and> (n \<noteq> 0 \<longrightarrow> c \<noteq> 48) \<and> (n = 0 \<longrightarrow> cs = [])"
proof (induction n rule: digits.induct)
  case (1 n)
  show ?case
  proof (cases "n < 10")
    case True
    then show ?thesis by (simp add: digits.simps [of n] is_digit_def)
  next
    case False
    then have "n div 10 \<noteq> 0" by simp
    with False "1.IH" show ?thesis
      by (auto simp: digits.simps [of n])
  qed
qed

lemma nat_of_digits_snoc: "nat_of_digits (ds @ [c]) = 10 * nat_of_digits ds + (c - 48)"
  by (simp add: nat_of_digits_def)

lemma nat_of_digits_digits: "nat_of_digits (digits n) = n"
proof (induction n rule: digits.induct)
  case (1 n)
  show ?case
  proof (cases "n < 10")
    case True
    then show ?thesis by (simp add: digits.simps [of n] nat_of_digits_def)
  next
    case False
    with "1.IH" show ?thesis
      by (simp add: digits.simps [of n] nat_of_digits_snoc)
  qed
qed

lemma takeWhile_delim: "delim r \<Longrightarrow> takeWhile is_digit r = []"
  by (cases r) (auto simp: delim_def is_digit_def)

lemma frac_part_delim: "delim r \<Longrightarrow> frac_part r = []"
  by (cases r) (auto simp: delim_def frac_part_def split: list.splits)

lemma exp_part_delim: "delim r \<Longrightarrow> exp_part r = []"
  by (cases r) (auto simp: delim_def exp_part_def)

lemma takeWhile_digits: "delim r \<Longrightarrow> takeWhile is_digit (digits n @ r) = digits n"
  by (simp add: digits_is_digit takeWhile_delim)

lemma int_part_digits:
  assumes "delim r"
  shows "int_part (digits n @ r) = digits n"
proof -
  obtain c cs where d: "digits n = c # cs" "is_digit c" "n \<noteq> 0 \<longrightarrow> c \<noteq> 48" "n = 0 \<longrightarrow> cs = []"
    using digits_hd by blast
  show ?thesis
  proof (cases "c = 48")
    case True
    with d show ?thesis by (auto simp: int_part_def)
  next
    case False
    have "int_part (digits n @ r) = takeWhile is_digit (digits n @ r)"
      using False d(2) by (simp add: int_part_def d(1))
    then show ?thesis using takeWhile_digits [OF assms] by simp
  qed
qed

lemma digits_not_minus: "digits n = c # cs \<Longrightarrow> c \<noteq> 45"
  using digits_is_digit [of c n] by (auto simp: is_digit_def)

lemma digits_nonempty: "digits n \<noteq> []"
  using digits_hd [of n] by auto

lemma scan_number_digits:
  assumes "delim r"
  shows "scan_number (digits n @ r) = Some (JInt (int n), r)"
proof -
  obtain c cs where d: "digits n = c # cs"
    using digits_hd by blast
  have s1: "(case digits n @ r of [] \<Rightarrow> ([], digits n @ r)
             | c # cs \<Rightarrow> if c = 45 then ([45], cs) else ([], digits n @ r)) = ([], digits n @ r)"
    using digits_not_minus [OF d] by (simp add: d)
  show ?thesis
    unfolding scan_number_def s1
    by (simp add: int_part_digits [OF assms] frac_part_delim [OF assms] exp_part_delim [OF assms]
        nat_of_digits_digits digits_nonempty)
qed

lemma scan_number_minus_digits:
  assumes "delim r"
  shows "scan_number (45 # digits n @ r) = Some (JInt (- int n), r)"
  unfolding scan_number_def
  by (simp add: int_part_digits [OF assms] frac_part_delim [OF assms] exp_part_delim [OF assms]
        nat_of_digits_digits digits_nonempty)

lemma scan_number_str_of_int:
  "delim r \<Longrightarrow> scan_number (str_of_int k @ r) = Some (JInt k, r)"
  by (simp add: str_of_int_def scan_number_digits scan_number_minus_digits)

section \<open>Escaped strings are read back\<close>

lemma hex_value_hex_digit: "d < 16 \<Longrightarrow> hex_value (hex_digit d) = Some d"
  by (auto simp: hex_value_def hex_digit_def)

lemma hex_step1: "(n::nat) div 16 mod 16 * 16 + n mod 16 = n mod 256"
  by (simp add: mod_mult2_eq [of n 16 16, simplified] add.commute mult.commute)

lemma hex_step2: "(n::nat) div 256 mod 16 * 256 + n mod 256 = n mod 4096"
  using mod_mult2_eq [of n 256 16] by (simp add: add.commute mult.commute)

lemma hex_step3: "n < 65536 \<Longrightarrow> (n::nat) div 4096 mod 16 * 4096 + n mod 4096 = n"
  using mod_mult2_eq [of n 4096 16] by (simp add: add.commute mult.commute)

lemma hex4_arith:
  assumes "n < 65536"
  shows "((n div 4096 mod 16 * 16 + n div 256 mod 16) * 16 + n div 16 mod 16) * 16 + n mod 16 = (n::nat)"
proof -
  have "((n div 4096 mod 16 * 16 + n div 256 mod 16) * 16 + n div 16 mod 16) * 16 + n mod 16
        = n div 4096 mod 16 * 4096 + (n div 256 mod 16 * 256 + (n div 16 mod 16 * 16 + n mod 16))"
    by (simp add: algebra_simps)
  also have "\<dots> = n" by (simp only: hex_step1 hex_step2 hex_step3 [OF assms])
  finally show ?thesis .
qed

lemma hex4_value_hex4:
  "n < 65536 \<Longrightarrow>
   hex4_value (hex_digit (n div 4096 mod 16)) (hex_digit (n div 256 mod 16))
     (hex_digit (n div 16 mod 16)) (hex_digit (n mod 16)) = Some n"
proof -
  assume n: "n < 65536"
  have "hex_value (hex_digit (n div 4096 mod 16)) = Some (n div 4096 mod 16)"
    and "hex_value (hex_digit (n div 256 mod 16)) = Some (n div 256 mod 16)"
    and "hex_value (hex_digit (n div 16 mod 16)) = Some (n div 16 mod 16)"
    and "hex_value (hex_digit (n mod 16)) = Some (n mod 16)"
    by (rule hex_value_hex_digit, simp)+
  then show ?thesis
    unfolding hex4_value_def by (simp only: prod.case option.case hex4_arith [OF n])
qed

lemma scanstring_plain:
  "c \<noteq> 34 \<Longrightarrow> c \<noteq> 92 \<Longrightarrow> 32 \<le> c \<Longrightarrow> scanstring (c # t) = cons_char c (scanstring t)"
  by simp

lemma scanstring_simple_escape:
  "unescape e = Some x \<Longrightarrow> e \<noteq> 117 \<Longrightarrow> scanstring (92 # e # t) = cons_char x (scanstring t)"
  by simp

lemma case6_const:
  "(\<And>b l y3 y2 y1 y0 r2. F b l y3 y2 y1 y0 r2 = X) \<Longrightarrow>
   (case r of b # l # y3 # y2 # y1 # y0 # r2 \<Rightarrow> F b l y3 y2 y1 y0 r2 | _ \<Rightarrow> X) = X"
  by (simp split: list.split)

lemma scanstring_u_single:
  assumes "hex4_value a b c d = Some u" and "\<not> (55296 \<le> u \<and> u \<le> 56319)"
  shows "scanstring (92 # 117 # a # b # c # d # t) = cons_char u (scanstring t)"
proof -
  have "(case t of
           b # l # y3 # y2 # y1 # y0 # r2 \<Rightarrow>
             (case hex4_value y3 y2 y1 y0 of
                Some u2 \<Rightarrow>
                  if 55296 \<le> u \<and> u \<le> 56319 \<and> b = 92 \<and> l = 117 \<and> 56320 \<le> u2 \<and> u2 \<le> 57343
                  then cons_char (65536 + (u - 55296) * 1024 + (u2 - 56320)) (scanstring r2)
                  else cons_char u (scanstring t)
              | None \<Rightarrow> cons_char u (scanstring t))
         | _ \<Rightarrow> cons_char u (scanstring t)) = cons_char u (scanstring t)"
    by (rule case6_const) (use assms(2) in \<open>auto split: option.split\<close>)
  then show ?thesis using assms(1) by simp
qed

lemma scanstring_u_pair:
  assumes "hex4_value a b c d = Some u" and "55296 \<le> u" and "u \<le> 56319"
    and "hex4_value y3 y2 y1 y0 = Some u2" and "56320 \<le> u2" and "u2 \<le> 57343"
  shows "scanstring (92 # 117 # a # b # c # d # 92 # 117 # y3 # y2 # y1 # y0 # t)
         = cons_char (65536 + (u - 55296) * 1024 + (u2 - 56320)) (scanstring t)"
  using assms by simp

lemma astral_arith:
  assumes "65536 \<le> c" "c < 1114112"
  shows "65536 + (55296 + (c - 65536) div 1024 mod 1024 - 55296) * 1024
     + (56320 + (c - 65536) mod 1024 - 56320) = (c::nat)"
proof -
  define v where "v = c - 65536"
  have v: "v < 1048576" "c = 65536 + v" using assms by (simp_all add: v_def)
  have "v div 1024 < 1024" using v(1) by simp
  then have "v div 1024 mod 1024 = v div 1024" by simp
  then have "65536 + (55296 + v div 1024 mod 1024 - 55296) * 1024 + (56320 + v mod 1024 - 56320)
     = 65536 + (v div 1024 * 1024 + v mod 1024)" by simp
  also have "\<dots> = 65536 + v" by simp
  finally show ?thesis by (simp add: v_def [symmetric] v(2))
qed

lemma scanstring_escape_char:
  assumes "scalar c"
  shows "scanstring (escape_char c @ t) = cons_char c (scanstring t)"
proof -
  consider (special) "c \<in> {34, 92, 10, 13, 9, 12, 8}"
    | (plain) "c \<notin> {34, 92, 10, 13, 9, 12, 8}" "32 \<le> c" "c \<le> 126"
    | (bmp) "c \<notin> {34, 92, 10, 13, 9, 12, 8}" "\<not> (32 \<le> c \<and> c \<le> 126)" "c < 65536"
    | (astral) "65536 \<le> c"
    by linarith
  then show ?thesis
  proof cases
    case special
    then consider "c = 34" | "c = 92" | "c = 10" | "c = 13" | "c = 9" | "c = 12" | "c = 8"
      by auto
    then show ?thesis
    proof cases
      case 1
      then show ?thesis
        using scanstring_simple_escape [of 34 34 t]
        by (simp add: escape_char_def unescape_def del: scanstring.simps)
    next
      case 2
      then show ?thesis
        using scanstring_simple_escape [of 92 92 t]
        by (simp add: escape_char_def unescape_def del: scanstring.simps)
    next
      case 3
      then show ?thesis
        using scanstring_simple_escape [of 110 10 t]
        by (simp add: escape_char_def unescape_def del: scanstring.simps)
    next
      case 4
      then show ?thesis
        using scanstring_simple_escape [of 114 13 t]
        by (simp add: escape_char_def unescape_def del: scanstring.simps)
    next
      case 5
      then show ?thesis
        using scanstring_simple_escape [of 116 9 t]
        by (simp add: escape_char_def unescape_def del: scanstring.simps)
    next
      case 6
      then show ?thesis
        using scanstring_simple_escape [of 102 12 t]
        by (simp add: escape_char_def unescape_def del: scanstring.simps)
    next
      case 7
      then show ?thesis
        using scanstring_simple_escape [of 98 8 t]
        by (simp add: escape_char_def unescape_def del: scanstring.simps)
    qed
  next
    case plain
    then have "escape_char c = [c]" by (auto simp: escape_char_def)
    with plain show ?thesis
      by (simp add: scanstring_plain del: scanstring.simps)
  next
    case bmp
    then have esc: "escape_char c = 92 # 117 # hex4 c" by (auto simp: escape_char_def)
    have "\<not> (55296 \<le> c \<and> c \<le> 56319)" using assms bmp by (auto simp: scalar_def)
    from scanstring_u_single [OF hex4_value_hex4 [OF bmp(3)] this]
    show ?thesis
      unfolding esc hex4_def by (simp del: scanstring.simps)
  next
    case astral
    then have lt: "c < 1114112" using assms by (auto simp: scalar_def)
    define hi where "hi = 55296 + (c - 65536) div 1024 mod 1024"
    define lo where "lo = 56320 + (c - 65536) mod 1024"
    have esc: "escape_char c = 92 # 117 # hex4 hi @ 92 # 117 # hex4 lo"
      using astral by (simp add: escape_char_def hi_def lo_def)
    have hi: "hi < 65536" "55296 \<le> hi" "hi \<le> 56319" by (simp_all add: hi_def)
    have lo: "lo < 65536" "56320 \<le> lo" "lo \<le> 57343" by (simp_all add: lo_def)
    have c: "65536 + (hi - 55296) * 1024 + (lo - 56320) = c"
      unfolding hi_def lo_def by (rule astral_arith [OF astral lt])
    from scanstring_u_pair [OF hex4_value_hex4 [OF hi(1)] hi(2,3) hex4_value_hex4 [OF lo(1)] lo(2,3), of t]
    show ?thesis
      unfolding esc hex4_def c by (simp del: scanstring.simps)
  qed
qed


lemma scanstring_escaped:
  "\<forall>c\<in>set s. scalar c \<Longrightarrow> scanstring (concat (map escape_char s) @ 34 # r) = Inr (s, r)"
proof (induction s)
  case Nil
  show ?case by simp
next
  case (Cons c s)
  then show ?case
    by (simp add: scanstring_escape_char cons_char_def del: scanstring.simps)
qed

lemma skip_ws_cons: "\<not> is_ws c \<Longrightarrow> skip_ws (c # s) = c # s"
  by (simp add: skip_ws_def)

lemma skip_ws_space: "skip_ws (32 # s) = skip_ws s"
  by (simp add: skip_ws_def is_ws_def)

lemma scan_once_string:
  "scan_once (Suc n) (34 # cs) =
     (case scanstring cs of Inl e \<Rightarrow> Inl e | Inr (t, r) \<Rightarrow> Inr (JStr t, r))"
  by simp

lemma scan_once_number:
  assumes "is_digit c \<or> c = 45" and "scan_number (c # cs) = Some (v, r)"
  shows "scan_once (Suc n) (c # cs) = Inr (v, r)"
proof -
  have "c \<noteq> 34" "c \<noteq> 123" "c \<noteq> 91" "c \<noteq> 110" "c \<noteq> 116" "c \<noteq> 102"
    using assms(1) by (auto simp: is_digit_def)
  then show ?thesis using assms(2) by (simp add: ascii_def)
qed

lemma str_of_int_hd: "\<exists>c cs. str_of_int k = c # cs \<and> (is_digit c \<or> c = 45)"
  using digits_hd [of "nat k"] by (auto simp: str_of_int_def)

lemma scan_once_flat:
  assumes "flat v" and "delim r"
  shows "scan_once (Suc n) (json_dumps v @ r) = Inr (v, r)"
proof (cases v)
  case (JInt k)
  obtain c cs where c: "str_of_int k = c # cs" "is_digit c \<or> c = 45"
    using str_of_int_hd by blast
  have "scan_number (c # cs @ r) = Some (JInt k, r)"
    using scan_number_str_of_int [OF assms(2), of k] by (simp add: c(1))
  from scan_once_number [OF c(2) this] show ?thesis
    by (simp add: JInt c(1) del: scan_once.simps)
next
  case (JStr s)
  then have "\<forall>c\<in>set s. scalar c" using assms(1) by (simp add: flat_def)
  then show ?thesis
    by (simp add: JStr encode_basestring_ascii_def scan_once_string scanstring_escaped
        del: scan_once.simps)
qed (use assms(1) in \<open>simp_all add: flat_def\<close>)

lemma flat_hd: "flat v \<Longrightarrow> \<exists>c cs. json_dumps v = c # cs \<and> \<not> is_ws c"
proof (cases v)
  case (JInt k)
  then show ?thesis using str_of_int_hd [of k] by (auto simp: is_ws_def is_digit_def)
next
  case (JStr s)
  then show ?thesis by (simp add: encode_basestring_ascii_def is_ws_def)
qed (simp_all add: flat_def)

lemma skip_ws_flat: "flat v \<Longrightarrow> skip_ws (json_dumps v @ r) = json_dumps v @ r"
  using flat_hd [of v] by (auto simp: skip_ws_cons)

lemma skip_ws_delim: "delim r \<Longrightarrow> skip_ws r = r"
  by (cases r) (auto simp: delim_def skip_ws_def is_ws_def)

text \<open>One member, read from after the opening quote of its key.\<close>

lemma scan_members_step:
  assumes k: "\<forall>c\<in>set k. scalar c" and v: "flat v" and r: "delim r"
  shows "scan_members (Suc (Suc n)) (tl (member_text (k, v)) @ r) acc =
           (case r of
              [] \<Rightarrow> Inl JSONDecodeError
            | d # r4 \<Rightarrow>
                if d = 125 then Inr (JObj (dict_of_pairs (acc @ [(k, v)])), r4)
                else (case skip_ws r4 of
                        [] \<Rightarrow> Inl JSONDecodeError
                      | q # r5 \<Rightarrow> if q = 34 then scan_members (Suc n) r5 (acc @ [(k, v)])
                                  else Inl JSONDecodeError))"
    (is "_ = ?rhs")
proof -
  have t: "tl (member_text (k, v)) @ r
           = concat (map escape_char k) @ 34 # 58 # 32 # json_dumps v @ r"
    by (simp add: member_text_def encode_basestring_ascii_def ascii_def)
  have w1: "skip_ws (58 # 32 # json_dumps v @ r) = 58 # 32 # json_dumps v @ r"
    by (simp add: skip_ws_cons is_ws_def)
  have w2: "skip_ws (32 # json_dumps v @ r) = json_dumps v @ r"
    by (simp add: skip_ws_space skip_ws_flat [OF v])
  have "scan_members (Suc (Suc n)) (tl (member_text (k, v)) @ r) acc =
          (case r of
             [] \<Rightarrow> Inl JSONDecodeError
           | d # r4 \<Rightarrow>
               if d = 125 then Inr (JObj (dict_of_pairs (acc @ [(k, v)])), r4)
               else if d = 44 then
                 (case skip_ws r4 of
                    [] \<Rightarrow> Inl JSONDecodeError
                  | q # r5 \<Rightarrow> if q = 34 then scan_members (Suc n) r5 (acc @ [(k, v)])
                              else Inl JSONDecodeError)
               else Inl JSONDecodeError)"
    unfolding t
    by (simp add: scanstring_escaped [OF k] w1 w2 scan_once_flat [OF v r] skip_ws_delim [OF r]
          del: scan_once.simps)
  also have "\<dots> = ?rhs"
    using r by (cases r) (auto simp: delim_def)
  finally show ?thesis .
qed

lemma member_text_hd: "\<exists>cs. member_text kv = 34 # cs"
  by (cases kv) (simp add: member_text_def encode_basestring_ascii_def)

lemma join_members_hd:
  assumes "kvs \<noteq> []"
  shows "\<exists>cs. join sep (map member_text kvs) = 34 # cs"
proof (cases kvs)
  case Nil
  with assms show ?thesis by simp
next
  case (Cons kv rest)
  obtain cs where "member_text kv = 34 # cs" using member_text_hd by blast
  then show ?thesis using Cons by (cases rest) simp_all
qed

lemma dict_set_fresh: "k \<notin> fst ` set d \<Longrightarrow> dict_set d k v = d @ [(k, v)]"
  by (induction d) auto

lemma dict_of_pairs_distinct_aux:
  "distinct (map fst (acc @ ps)) \<Longrightarrow>
   foldl (\<lambda>d (k, v). dict_set d k v) acc ps = acc @ ps"
proof (induction ps arbitrary: acc)
  case Nil
  then show ?case by simp
next
  case (Cons p ps)
  obtain k v where p: "p = (k, v)" by (cases p)
  have "k \<notin> fst ` set acc" using Cons.prems by (auto simp: p)
  then have "dict_set acc k v = acc @ [(k, v)]" by (rule dict_set_fresh)
  moreover have "distinct (map fst ((acc @ [(k, v)]) @ ps))" using Cons.prems by (simp add: p)
  ultimately show ?case using Cons.IH [of "acc @ [(k, v)]"] by (simp add: p)
qed

lemma dict_of_pairs_distinct: "distinct (map fst ps) \<Longrightarrow> dict_of_pairs ps = ps"
  using dict_of_pairs_distinct_aux [of "[]" ps] by (simp add: dict_of_pairs_def)

lemma scan_members_flat:
  assumes "kvs \<noteq> []"
    and "\<forall>(k, v)\<in>set kvs. (\<forall>c\<in>set k. scalar c) \<and> flat v"
  shows "scan_members (Suc (length kvs + n)) (tl (join (ascii '', '') (map member_text kvs)) @ 125 # r) acc
         = Inr (JObj (dict_of_pairs (acc @ kvs)), r)"
  using assms
proof (induction kvs arbitrary: acc)
  case Nil
  then show ?case by simp
next
  case (Cons kv rest)
  obtain k v where kv: "kv = (k, v)" by (cases kv)
  have k: "\<forall>c\<in>set k. scalar c" and v: "flat v" using Cons.prems(2) by (auto simp: kv)
  show ?case
  proof (cases rest)
    case Nil
    have "delim (125 # r)" by (simp add: delim_def)
    from scan_members_step [OF k v this, of n acc] show ?thesis
      by (simp add: Nil kv)
  next
    case (Cons kv2 rest2)
    obtain cs where cs: "join (ascii '', '') (map member_text rest) = 34 # cs"
      using join_members_hd [of rest] Cons by blast
    have d: "delim (44 # 32 # 34 # cs @ 125 # r)" by (simp add: delim_def)
    have tx: "tl (join (ascii '', '') (map member_text (kv # rest))) @ 125 # r
               = tl (member_text (k, v)) @ 44 # 32 # 34 # cs @ 125 # r"
      using cs member_text_hd [of "(k, v)"] by (auto simp: Cons kv ascii_def)
    have ih: "scan_members (Suc (length rest + n)) (cs @ 125 # r) (acc @ [(k, v)])
              = Inr (JObj (dict_of_pairs ((acc @ [(k, v)]) @ rest)), r)"
      using Cons.IH [of "acc @ [(k, v)]"] Cons.prems(2) cs Cons by simp
    from scan_members_step [OF k v d, of "length rest + n" acc] ih
    show ?thesis
      unfolding tx by (simp add: skip_ws_space skip_ws_cons is_ws_def kv)
  qed
qed

lemma length_join_members: "length kvs \<le> length (join sep (map member_text kvs))"
proof (induction kvs rule: induct_list012)
  case 1
  show ?case by simp
next
  case (2 kv)
  obtain cs where "member_text kv = 34 # cs" using member_text_hd by blast
  then show ?case by simp
next
  case (3 kv kv2 rest)
  obtain cs where "member_text kv = 34 # cs" using member_text_hd by blast
  with 3 show ?case by simp
qed

lemma json_dumps_object:
  "json_dumps (JObj kvs) = 123 # join (ascii '', '') (map member_text kvs) @ [125]"
  by (simp add: member_text_def ascii_def)

lemma flat_object_round_trip:
  assumes "flat_object kvs"
  shows "json_loads (json_dumps (JObj kvs)) = Inr (JObj kvs)"
proof (cases kvs)
  case Nil
  have e: "scan_once (Suc (Suc n)) [123, 125] = Inr (JObj [], [])" for n
    by (simp add: skip_ws_def is_ws_def)
  from e [of 3] show ?thesis
    by (simp add: Nil json_loads_def ascii_def skip_ws_def is_ws_def del: scan_once.simps)
next
  case (Cons kv rest)
  define body where "body = join (ascii '', '') (map member_text kvs)"
  obtain cs where cs: "body = 34 # cs"
    using join_members_hd [of kvs] Cons unfolding body_def by blast
  have "length kvs \<le> length body" unfolding body_def by (rule length_join_members)
  then obtain n where n: "length body = length kvs + n"
    using le_Suc_ex by blast
  have good: "\<forall>(k, v)\<in>set kvs. (\<forall>c\<in>set k. scalar c) \<and> flat v"
    and dist: "distinct (map fst kvs)"
    using assms by (auto simp: flat_object_def)
  have ne: "kvs \<noteq> []" using Cons by simp
  define f where "f = Suc (length kvs + (length kvs + 2 * n + 3))"
  have m: "scan_members f (cs @ [125]) [] = Inr (JObj kvs, [])"
    unfolding f_def
    using scan_members_flat [OF ne good, of "length kvs + 2 * n + 3" "[]" "[]"] cs
    by (simp add: body_def dict_of_pairs_distinct [OF dist])
  have dumped: "json_dumps (JObj kvs) = 123 # 34 # cs @ [125]"
    using cs unfolding json_dumps_object body_def by simp
  have fuel: "Suc (2 * length (123 # 34 # cs @ [125])) = Suc f"
    using n cs by (simp add: f_def)
  show ?thesis
    unfolding dumped json_loads_def fuel
    by (simp add: skip_ws_cons is_ws_def m skip_ws_def del: scan_members.simps)
qed

section \<open>What the handlers send can be encoded\<close>

lemma of_char_less_256: "(of_char x :: nat) < 256"
proof -
  have "(of_char x :: nat) mod 256 = of_char x" by simp
  then show ?thesis by (metis mod_less_divisor zero_less_numeral)
qed

lemma scalar_ascii:
  assumes "c \<in> set (ascii s)"
  shows "scalar c"
proof -
  obtain x where "c = of_char x" using assms by (auto simp: ascii_def)
  moreover have "(of_char x :: nat) < 55296"
    using of_char_less_256 [of x] by linarith
  ultimately show ?thesis by (simp add: scalar_def)
qed

lemma scalar_str_of_int:
  assumes "c \<in> set (str_of_int m)"
  shows "scalar c"
proof -
  have "is_digit c \<or> c = 45"
    using assms digits_is_digit [of c] by (auto simp: str_of_int_def split: if_splits)
  then show ?thesis by (auto simp: scalar_def is_digit_def)
qed

lemma encodable_append: "encodable (xs @ ys) \<longleftrightarrow> encodable xs \<and> encodable ys"
  by (simp add: encodable_def)

lemma encodable_Cons: "encodable (c # cs) \<longleftrightarrow> scalar c \<and> encodable cs"
  by (simp add: encodable_def)

lemma encodable_Nil: "encodable []"
  by (simp add: encodable_def)

lemma encodable_ascii: "encodable (ascii s)"
  using scalar_ascii by (simp add: encodable_def list_all_iff)

lemma encodable_str_of_int: "encodable (str_of_int n)"
  using scalar_str_of_int by (simp add: encodable_def list_all_iff)

lemma encodable_join:
  "encodable sep \<Longrightarrow> \<forall>x\<in>set xs. encodable x \<Longrightarrow> encodable (join sep xs)"
  by (induction sep xs rule: join.induct) (simp_all add: encodable_append encodable_Nil)

lemma scalar_hex_digit: "d < 16 \<Longrightarrow> scalar (hex_digit d)"
  by (simp add: hex_digit_def scalar_def)

lemma encodable_hex4: "encodable (hex4 n)"
  by (simp add: hex4_def encodable_Cons encodable_Nil scalar_hex_digit)

lemma encodable_escape_char: "encodable (escape_char c)"
  by (simp add: escape_char_def encodable_Cons encodable_Nil encodable_append encodable_hex4
      scalar_def)

lemma encodable_concat: "\<forall>x\<in>set xs. encodable x \<Longrightarrow> encodable (concat xs)"
  by (induction xs) (simp_all add: encodable_append encodable_Nil)

lemma encodable_basestring: "encodable (encode_basestring_ascii s)"
  by (simp add: encode_basestring_ascii_def encodable_Cons encodable_Nil encodable_append
      encodable_concat encodable_escape_char scalar_def)

lemma encodable_object:
  assumes "\<forall>(k, v)\<in>set kvs. encodable (json_dumps v)"
  shows "encodable (json_dumps (JObj kvs))"
proof -
  have "\<forall>x\<in>set (map member_text kvs). encodable x"
    using assms
    by (auto simp: member_text_def encodable_append encodable_basestring encodable_ascii)
  then show ?thesis
    unfolding json_dumps_object
    by (simp add: encodable_Cons encodable_Nil encodable_append encodable_join encodable_ascii
        scalar_def del: set_map)
qed

lemma encodable_number: "encodable (json_dumps (JObj [(k, JInt n)]))"
  by (rule encodable_object) (simp add: encodable_str_of_int)

lemma encodable_user: "encodable (json_dumps (user_payload uid f l age m))"
  unfolding user_payload_def
  by (rule encodable_object) (simp add: encodable_str_of_int encodable_basestring)

lemma encodable_keys:
  "encodable (ascii ''random_number'')" "encodable (ascii ''random_user'')"
  by (rule encodable_ascii)+

lemmas io_defs = io_bind_def io_return_def io_raise_def io_of_result_def

lemma get_redis_pool:
  "RedisClient_pool w \<noteq> None \<Longrightarrow>
   get_redis w = (Inr \<lparr>connection_pool = the (RedisClient_pool w)\<rparr>, w)"
  by (auto simp: get_redis_def)

lemma get_redis_Inl: "get_redis w = (Inl e, w') \<Longrightarrow> w' = w"
  by (auto simp: get_redis_def Let_def split: option.splits sum.splits if_splits)

lemma get_redis_Inr:
  assumes "get_redis w = (Inr c, w')"
  shows "RedisClient_pool w' = Some (connection_pool c)"
    and "entries w' = entries w" and "now w' = now w" and "reachable w' = reachable w"
    and "rng w' = rng w" and "environ w' = environ w" and "disconnected w' = disconnected w"
  using assms
  by (auto simp: get_redis_def Let_def split: option.splits sum.splits if_splits)

lemma lookup_frame:
  "entries w' = entries w \<Longrightarrow> now w' = now w \<Longrightarrow> lookup w' key = lookup w key"
  by (simp add: lookup_def split: option.splits)

lemma get_cached_data_failed:
  "get_redis w = (Inl e, w1) \<Longrightarrow> get_cached_data key w = (Inl e, w)"
  by (frule get_redis_Inl) (simp add: get_cached_data_def io_defs)

lemma get_cached_data_run:
  assumes "get_redis w = (Inr c, w1)"
  shows "get_cached_data key w =
           (if \<not> shd (reachable w) then Inl ConnectionError
            else if \<not> encodable key then Inl UnicodeEncodeError
            else Inr (lookup w key),
            w1\<lparr>reachable := stl (reachable w)\<rparr>)"
  using get_redis_Inr [OF assms]
  by (simp add: get_cached_data_def io_defs redis_get_def Let_def assms
      lookup_frame [of w1 w])

lemma set_cached_data_run:
  assumes "RedisClient_pool w \<noteq> None"
  shows "set_cached_data key val seconds w =
           (if \<not> shd (reachable w) then (Inl ConnectionError, w\<lparr>reachable := stl (reachable w)\<rparr>)
            else if \<not> (encodable key \<and> encodable val)
                 then (Inl UnicodeEncodeError, w\<lparr>reachable := stl (reachable w)\<rparr>)
            else if seconds \<le> 0 \<or> max_expire_seconds < seconds
                 then (Inl ResponseError, w\<lparr>reachable := stl (reachable w)\<rparr>)
            else (Inr (), w\<lparr>reachable := stl (reachable w),
                            entries := (entries w)(key \<mapsto> (val, now w + real_of_int seconds))\<rparr>))"
  by (simp add: set_cached_data_def io_defs redis_setex_def get_redis_pool [OF assms] Let_def)

lemma ttl_accepted: "\<not> max_expire_seconds < 30" "\<not> max_expire_seconds < 60"
  by (simp_all add: max_expire_seconds_def)

lemma get_random_number_failed:
  "get_redis w = (Inl e, w1) \<Longrightarrow> get_random_number w = (Inl e, w)"
  by (simp add: get_random_number_def get_cached_data_failed io_defs Let_def)

lemma get_random_number_run:
  assumes "get_redis w = (Inr c, w1)"
  shows "get_random_number w =
    (if \<not> shd (reachable w) then (Inl ConnectionError, w1\<lparr>reachable := stl (reachable w)\<rparr>)
     else if truthy (lookup w (ascii ''random_number'')) then
       (case json_loads (the (lookup w (ascii ''random_number''))) of
          Inl e \<Rightarrow> Inl e
        | Inr v \<Rightarrow> Inr \<lparr>data = v, source = ascii ''cache''\<rparr>,
        w1\<lparr>reachable := stl (reachable w)\<rparr>)
     else
       (let d = JObj [(ascii ''number'', JInt (1 + int (shd (stl (rng w)) mod 100)))];
            t = now w + random_delay (1 / 2) 2 w;
            w2 = w1\<lparr>reachable := stl (stl (reachable w)), rng := stl (stl (rng w)), now := t\<rparr>
        in if \<not> shd (stl (reachable w)) then (Inl ConnectionError, w2)
           else (Inr \<lparr>data = d, source = ascii ''generated''\<rparr>,
                 w2\<lparr>entries := (entries w)(ascii ''random_number'' \<mapsto> (json_dumps d, t + 30))\<rparr>)))"
proof -
  note f = get_redis_Inr [OF assms]
  show ?thesis
    unfolding get_random_number_def Let_def
    by (simp add: get_cached_data_run [OF assms] io_defs random_uniform_def random_random_def
        randbelow_def asyncio_sleep_def random_randint_def set_cached_data_run f
        random_delay_def ttl_accepted encodable_keys encodable_number encodable_user del: json_dumps.simps split: sum.splits)
qed

lemma get_random_user_failed:
  "get_redis w = (Inl e, w1) \<Longrightarrow> get_random_user w = (Inl e, w)"
  by (simp add: get_random_user_def get_cached_data_failed io_defs Let_def)

lemma get_random_user_run:
  assumes "get_redis w = (Inr c, w1)"
  shows "get_random_user w =
    (if \<not> shd (reachable w) then (Inl ConnectionError, w1\<lparr>reachable := stl (reachable w)\<rparr>)
     else if truthy (lookup w (ascii ''random_user'')) then
       (case json_loads (the (lookup w (ascii ''random_user''))) of
          Inl e \<Rightarrow> Inl e
        | Inr v \<Rightarrow> Inr \<lparr>data = v, source = ascii ''cache''\<rparr>,
        w1\<lparr>reachable := stl (reachable w)\<rparr>)
     else
       (let r1 = stl (rng w); r2 = stl r1; r3 = stl r2; r4 = stl r3; r5 = stl r4;
            d = user_payload (1000 + int (shd r1 mod 9000))
                  (first_names ! (shd r2 mod 5)) (last_names ! (shd r3 mod 5))
                  (18 + int (shd r4 mod 48)) (100 + int (shd r5 mod 900));
            t = now w + random_delay (1 / 2) 3 w;
            w2 = w1\<lparr>reachable := stl (stl (reachable w)), rng := stl r5, now := t\<rparr>
        in if \<not> shd (stl (reachable w)) then (Inl ConnectionError, w2)
           else (Inr \<lparr>data = d, source = ascii ''generated''\<rparr>,
                 w2\<lparr>entries := (entries w)(ascii ''random_user'' \<mapsto> (json_dumps d, t + 60))\<rparr>)))"
proof -
  note f = get_redis_Inr [OF assms]
  have l: "length first_names = 5" "length last_names = 5" "first_names \<noteq> []" "last_names \<noteq> []"
    by (simp_all add: first_names_def last_names_def)
  show ?thesis
    unfolding get_random_user_def Let_def user_payload_def [symmetric]
    by (simp add: get_cached_data_run [OF assms] io_defs random_uniform_def random_random_def
        randbelow_def asyncio_sleep_def random_randint_def random_choice_def set_cached_data_run f l
        random_delay_def ttl_accepted encodable_keys encodable_number encodable_user del: json_dumps.simps split: sum.splits)
qed

section \<open>The claims\<close>

lemma cache_neq_generated: "ascii ''cache'' \<noteq> ascii ''generated''"
  by (simp add: ascii_def)

lemma get_redis_world0:
  "get_redis world0 =
     (Inr \<lparr>connection_pool =
             \<lparr>pool_id = 0, url = ascii ''redis://localhost:6379'', password = None, db = 0,
              decode_responses = True, max_connections = 20\<rparr>\<rparr>,
      world0\<lparr>RedisClient_pool :=
               Some \<lparr>pool_id = 0, url = ascii ''redis://localhost:6379'', password = None, db = 0,
                     decode_responses = True, max_connections = 20\<rparr>,
             pools_created := 1\<rparr>)"
  by (simp add: get_redis_def world0_def ascii_def format_getenv_def Let_def
      url_port_def port_ok_def is_digit_def nat_of_digits_def)

lemma get_random_number_world0:
  "fst (get_random_number world0) =
     Inr \<lparr>data = JObj [(ascii ''number'', JInt 42)], source = ascii ''generated''\<rparr>"
  by (simp add: get_random_number_run [OF get_redis_world0] Let_def)
     (simp add: world0_def lookup_def truthy_def)

text \<open>
  C2. Whenever \<open>get_random_number\<close> answers with a generated payload (the miss path),
  the payload is the object \<open>{"number": n}\<close> with an integer \<open>n\<close> between 1 and 100.
\<close>

theorem number_in_range:
  assumes "fst (get_random_number w) = Inr r" and "source r = ascii ''generated''"
  shows "\<exists>n. data r = JObj [(ascii ''number'', JInt n)] \<and> 1 \<le> n \<and> n \<le> 100"
proof (cases "get_redis w")
  case (Pair a w1)
  show ?thesis
  proof (cases a)
    case (Inl e)
    with Pair assms(1) show ?thesis by (simp add: get_random_number_failed)
  next
    case (Inr c)
    have run: "get_redis w = (Inr c, w1)" using Pair Inr by simp
    have "(1::int) \<le> 1 + int (shd (stl (rng w)) mod 100)"
      and "1 + int (shd (stl (rng w)) mod 100) \<le> 100"
      by (simp_all add: Suc_leI)
    with assms cache_neq_generated show ?thesis
      by (auto simp: get_random_number_run [OF run] Let_def split: if_splits sum.splits)
  qed
qed

theorem number_in_range_witness:
  "fst (get_random_number world0)
     = Inr \<lparr>data = JObj [(ascii ''number'', JInt 42)], source = ascii ''generated''\<rparr>
   \<and> (\<exists>n. JObj [(ascii ''number'', JInt 42)] = JObj [(ascii ''number'', JInt n)]
          \<and> 1 \<le> n \<and> n \<le> 100)"
  using number_in_range [OF get_random_number_world0] get_random_number_world0 by simp

lemma get_redis_world0_pool0: "get_redis world0 = (Inr \<lparr>connection_pool = pool0\<rparr>, world1)"
  by (simp add: get_redis_world0 pool0_def world1_def)

text \<open>
  C8. \<open>close\<close> without a pool returns normally and changes nothing; with a pool it
  disconnects that pool and removes it.
\<close>

theorem close_spec:
  "(RedisClient_pool w = None \<longrightarrow> close w = (Inr (), w)) \<and>
   (RedisClient_pool w = Some p \<longrightarrow>
      close w = (Inr (), w\<lparr>disconnected := disconnected w @ [pool_id p],
                           RedisClient_pool := None\<rparr>))"
  by (simp add: close_def)

theorem close_spec_witness:
  "RedisClient_pool world0 = None \<and> close world0 = (Inr (), world0) \<and>
   RedisClient_pool world1 = Some pool0 \<and>
   close world1 = (Inr (), world1\<lparr>disconnected := [0], RedisClient_pool := None\<rparr>)"
  using close_spec [of world0] close_spec [of world1 pool0]
  by (simp add: world0_def world1_def pool0_def)

lemma set_cached_data_acquired:
  assumes "get_redis w = (Inr c, w1)"
  shows "set_cached_data key val seconds w =
           (if \<not> shd (reachable w) then (Inl ConnectionError, w1\<lparr>reachable := stl (reachable w)\<rparr>)
            else if \<not> (encodable key \<and> encodable val)
                 then (Inl UnicodeEncodeError, w1\<lparr>reachable := stl (reachable w)\<rparr>)
            else if seconds \<le> 0 \<or> max_expire_seconds < seconds
                 then (Inl ResponseError, w1\<lparr>reachable := stl (reachable w)\<rparr>)
            else (Inr (), w1\<lparr>reachable := stl (reachable w),
                             entries := (entries w)(key \<mapsto> (val, now w + real_of_int seconds))\<rparr>))"
  using get_redis_Inr [OF assms]
  by (simp add: set_cached_data_def io_defs redis_setex_def assms Let_def)

text \<open>
  C7, as stated, fails for a time to live that is not positive: \<open>SETEX\<close> answers with an
  error and the key holds nothing afterwards.
\<close>

theorem set_cached_data_zero_ttl:
  "fst (set_cached_data (ascii ''random_number'') (ascii ''{}'') 0 world0) = Inl ResponseError \<and>
   lookup (snd (set_cached_data (ascii ''random_number'') (ascii ''{}'') 0 world0))
     (ascii ''random_number'') = None"
  by (simp add: set_cached_data_acquired [OF get_redis_world0_pool0] encodable_ascii)
     (simp add: world0_def world1_def lookup_def)

lemma expiry_fits_max:
  assumes "expiry_fits w seconds"
  shows "seconds \<le> max_expire_seconds"
proof -
  have "real_of_int seconds * 1000 \<le> (now w + real_of_int seconds) * 1000"
    using assms by (simp add: expiry_fits_def)
  also have "\<dots> \<le> 9223372036854775807" using assms by (simp add: expiry_fits_def)
  finally have "real_of_int (seconds * 1000) \<le> real_of_int 9223372036854775807" by simp
  then have "seconds * 1000 \<le> 9223372036854775807" by (simp only: of_int_le_iff)
  then show ?thesis by (simp add: max_expire_seconds_def)
qed

text \<open>
  C7, amended. For every key and value that UTF-8 can encode, and every time to live of
  at least one second whose expiry instant the server can keep (the clock plus the time
  is at most \<open>LLONG_MAX\<close> milliseconds), when the connection is acquired and the command
  reaches the server, \<open>set_cached_data\<close> is one command that puts the value under the key
  with the new expiry, whatever the key held before: the key then holds exactly that
  value, its remaining time to live is the one supplied, and no other key changes.
\<close>

theorem set_cached_data_overwrites:
  assumes "0 < seconds" and "expiry_fits w seconds"
    and "get_redis w = (Inr c, w1)" and "shd (reachable w)"
    and "encodable key" and "encodable val"
  shows "\<exists>w'. set_cached_data key val seconds w = (Inr (), w') \<and>
              entries w' = (entries w)(key \<mapsto> (val, now w' + real_of_int seconds)) \<and>
              lookup w' key = Some val \<and>
              ttl w' key = Some (real_of_int seconds) \<and>
              reachable w' = stl (reachable w)"
  using assms(1,4,5,6) expiry_fits_max [OF assms(2)] get_redis_Inr [OF assms(3)]
  by (simp add: set_cached_data_acquired [OF assms(3)] lookup_def ttl_def)

theorem set_cached_data_overwrites_witness:
  "(0::int) < 30 \<and>
   expiry_fits (world0\<lparr>entries := [ascii ''random_number'' \<mapsto> (ascii ''old'', 5)]\<rparr>) 30 \<and>
   get_redis (world0\<lparr>entries := [ascii ''random_number'' \<mapsto> (ascii ''old'', 5)]\<rparr>)
     = (Inr \<lparr>connection_pool = pool0\<rparr>,
        world1\<lparr>entries := [ascii ''random_number'' \<mapsto> (ascii ''old'', 5)]\<rparr>) \<and>
   shd (reachable (world0\<lparr>entries := [ascii ''random_number'' \<mapsto> (ascii ''old'', 5)]\<rparr>)) \<and>
   encodable (ascii ''random_number'') \<and> encodable (ascii ''new'') \<and>
   (\<exists>w'. set_cached_data (ascii ''random_number'') (ascii ''new'') 30
            (world0\<lparr>entries := [ascii ''random_number'' \<mapsto> (ascii ''old'', 5)]\<rparr>) = (Inr (), w') \<and>
         entries w' = [ascii ''random_number'' \<mapsto> (ascii ''new'', now w' + 30)] \<and>
         lookup w' (ascii ''random_number'') = Some (ascii ''new'') \<and>
         ttl w' (ascii ''random_number'') = Some 30 \<and>
         reachable w' = stl (reachable world0))"
proof -
  let ?w = "world0\<lparr>entries := [ascii ''random_number'' \<mapsto> (ascii ''old'', 5)]\<rparr>"
  have g: "get_redis ?w = (Inr \<lparr>connection_pool = pool0\<rparr>,
             world1\<lparr>entries := [ascii ''random_number'' \<mapsto> (ascii ''old'', 5)]\<rparr>)"
    by (simp add: get_redis_def world0_def world1_def pool0_def ascii_def format_getenv_def Let_def
      url_port_def port_ok_def is_digit_def nat_of_digits_def)
  have r: "shd (reachable ?w)" by (simp add: world0_def)
  have p: "(0::int) < 30" by simp
  have f: "expiry_fits ?w 30" by (simp add: expiry_fits_def world0_def)
  from set_cached_data_overwrites [OF p f g r encodable_ascii encodable_ascii,
      of "''random_number''" "''new''"] g r f
  show ?thesis by (simp add: world0_def encodable_ascii)
qed











text \<open>What a generated answer tells about the call that gave it.\<close>

lemma get_random_number_generated:
  assumes "get_random_number w = (Inr r, w')" and "source r = ascii ''generated''"
  shows "\<exists>c w1. get_redis w = (Inr c, w1) \<and> shd (reachable w) \<and> shd (stl (reachable w)) \<and>
           \<not> truthy (lookup w (ascii ''random_number'')) \<and>
           data r = JObj [(ascii ''number'', JInt (1 + int (shd (stl (rng w)) mod 100)))] \<and>
           w' = w1\<lparr>reachable := stl (stl (reachable w)), rng := stl (stl (rng w)),
                    now := now w + random_delay (1 / 2) 2 w,
                    entries := (entries w)(ascii ''random_number'' \<mapsto>
                      (json_dumps (data r), now w + random_delay (1 / 2) 2 w + 30))\<rparr>"
proof (cases "get_redis w")
  case (Pair a w1)
  show ?thesis
  proof (cases a)
    case (Inl e)
    with Pair assms(1) show ?thesis by (simp add: get_random_number_failed)
  next
    case (Inr c)
    have run: "get_redis w = (Inr c, w1)" using Pair Inr by simp
    from assms cache_neq_generated show ?thesis
      by (auto simp: get_random_number_run [OF run] run Let_def
          simp del: json_dumps.simps split: if_splits sum.splits)
  qed
qed

lemma get_random_user_generated:
  assumes "get_random_user w = (Inr r, w')" and "source r = ascii ''generated''"
  shows "\<exists>c w1. get_redis w = (Inr c, w1) \<and> shd (reachable w) \<and> shd (stl (reachable w)) \<and>
           \<not> truthy (lookup w (ascii ''random_user'')) \<and>
           data r = user_payload (1000 + int (shd (stl (rng w)) mod 9000))
                      (first_names ! (shd (stl (stl (rng w))) mod 5))
                      (last_names ! (shd (stl (stl (stl (rng w)))) mod 5))
                      (18 + int (shd (stl (stl (stl (stl (rng w))))) mod 48))
                      (100 + int (shd (stl (stl (stl (stl (stl (rng w)))))) mod 900)) \<and>
           w' = w1\<lparr>reachable := stl (stl (reachable w)),
                    rng := stl (stl (stl (stl (stl (stl (rng w)))))),
                    now := now w + random_delay (1 / 2) 3 w,
                    entries := (entries w)(ascii ''random_user'' \<mapsto>
                      (json_dumps (data r), now w + random_delay (1 / 2) 3 w + 60))\<rparr>"
proof (cases "get_redis w")
  case (Pair a w1)
  show ?thesis
  proof (cases a)
    case (Inl e)
    with Pair assms(1) show ?thesis by (simp add: get_random_user_failed)
  next
    case (Inr c)
    have run: "get_redis w = (Inr c, w1)" using Pair Inr by simp
    from assms cache_neq_generated show ?thesis
      by (auto simp: get_random_user_run [OF run] run Let_def
          simp del: json_dumps.simps split: if_splits sum.splits)
  qed
qed

lemma digits_three:
  assumes "100 \<le> n" and "n < 1000"
  shows "digits n = [48 + n div 100, 48 + n div 10 mod 10, 48 + n mod 10]"
proof -
  have a: "\<not> n < 10" "\<not> n div 10 < 10" "n div 10 div 10 < 10" using assms by simp_all
  have "n div 10 div 10 = n div 100" by (simp add: div_mult2_eq [symmetric])
  then show ?thesis
    using a by (simp add: digits.simps [of n] digits.simps [of "n div 10"]
        digits.simps [of "n div 100"])
qed

lemma str_of_int_three:
  assumes "100 \<le> m" and "m \<le> 999"
  shows "length (str_of_int m) = 3" and "\<forall>c\<in>set (str_of_int m). is_digit c"
proof -
  have n: "100 \<le> nat m" "nat m < 1000" "\<not> m < 0" using assms by simp_all
  show "length (str_of_int m) = 3"
    using n by (simp add: str_of_int_def digits_three)
  show "\<forall>c\<in>set (str_of_int m). is_digit c"
    using n(3) digits_is_digit by (auto simp: str_of_int_def)
qed

lemma names_facts:
  "length first_names = 5" "distinct first_names" "length last_names = 5" "distinct last_names"
  "set first_names \<inter> set last_names = {}"
  by (simp_all add: first_names_def last_names_def)

lemma drawn_names:
  "first_names ! (i mod 5) \<in> set first_names" "last_names ! (j mod 5) \<in> set last_names"
  by (simp_all add: names_facts)

text \<open>
  C3. Whenever \<open>get_random_user\<close> answers with a generated payload (the miss path), the
  payload has an \<open>id\<close> from 1000 to 9999, an \<open>age\<close> from 18 to 65, a \<open>name\<close> made of one of the
  five first names, a space and one of the five last names (two lists without a common
  element), and an \<open>email\<close> made of \<open>user\<close>, the three digits of an integer from 100 to 999,
  and \<open>@example.com\<close>.
\<close>

theorem user_fields:
  assumes "fst (get_random_user w) = Inr r" and "source r = ascii ''generated''"
  shows "(\<exists>uid first_name last_name age m.
            data r = JObj [(ascii ''id'', JInt uid),
                           (ascii ''name'', JStr (first_name @ ascii '' '' @ last_name)),
                           (ascii ''age'', JInt age),
                           (ascii ''email'',
                            JStr (ascii ''user'' @ str_of_int m @ ascii ''@example.com''))] \<and>
            1000 \<le> uid \<and> uid \<le> 9999 \<and> 18 \<le> age \<and> age \<le> 65 \<and>
            first_name \<in> set first_names \<and> last_name \<in> set last_names \<and>
            100 \<le> m \<and> m \<le> 999 \<and> length (str_of_int m) = 3 \<and>
            (\<forall>c\<in>set (str_of_int m). is_digit c)) \<and>
         length first_names = 5 \<and> distinct first_names \<and>
         length last_names = 5 \<and> distinct last_names \<and>
         set first_names \<inter> set last_names = {}"
proof -
  have "get_random_user w = (Inr r, snd (get_random_user w))"
    using assms(1) by (simp add: prod_eq_iff)
  from get_random_user_generated [OF this assms(2)]
  have d: "data r = user_payload (1000 + int (shd (stl (rng w)) mod 9000))
                      (first_names ! (shd (stl (stl (rng w))) mod 5))
                      (last_names ! (shd (stl (stl (stl (rng w)))) mod 5))
                      (18 + int (shd (stl (stl (stl (stl (rng w))))) mod 48))
                      (100 + int (shd (stl (stl (stl (stl (stl (rng w)))))) mod 900))"
    (is "_ = user_payload ?uid ?f ?l ?age ?m")
    by blast
  have uid: "1000 \<le> ?uid" "?uid \<le> 9999" by simp_all
  have age: "18 \<le> ?age" "?age \<le> 65" by simp_all
  have m: "100 \<le> ?m" "?m \<le> 999" by simp_all
  show ?thesis
    apply (intro conjI names_facts)
    apply (rule exI [of _ ?uid], rule exI [of _ ?f], rule exI [of _ ?l], rule exI [of _ ?age],
        rule exI [of _ ?m])
    apply (intro conjI uid age m drawn_names str_of_int_three [OF m])
    apply (simp only: d user_payload_def)
    done
qed

lemma get_random_number_world0_number0: "fst (get_random_number world0) = Inr number0"
  by (simp add: get_random_number_world0 number0_def)

lemma get_random_user_world0: "fst (get_random_user world0) = Inr user0"
  by (simp add: get_random_user_run [OF get_redis_world0] Let_def)
     (simp add: world0_def lookup_def truthy_def user0_def user_payload_def
        first_names_def last_names_def)

lemma source0: "source number0 = ascii ''generated''" "source user0 = ascii ''generated''"
  by (simp_all add: number0_def user0_def)

theorem user_fields_witness:
  "fst (get_random_user world0) = Inr user0 \<and> source user0 = ascii ''generated'' \<and>
   (\<exists>uid first_name last_name age m.
      data user0 = JObj [(ascii ''id'', JInt uid),
                         (ascii ''name'', JStr (first_name @ ascii '' '' @ last_name)),
                         (ascii ''age'', JInt age),
                         (ascii ''email'',
                          JStr (ascii ''user'' @ str_of_int m @ ascii ''@example.com''))] \<and>
      1000 \<le> uid \<and> uid \<le> 9999 \<and> 18 \<le> age \<and> age \<le> 65 \<and>
      first_name \<in> set first_names \<and> last_name \<in> set last_names \<and>
      100 \<le> m \<and> m \<le> 999 \<and> length (str_of_int m) = 3 \<and>
      (\<forall>c\<in>set (str_of_int m). is_digit c))"
  using user_fields [OF get_random_user_world0 source0(2)] get_random_user_world0 source0(2)
  by blast

text \<open>
  C4. A generated answer of \<open>get_random_number\<close> leaves its payload in the store with a
  time to live of exactly 30 seconds; a generated answer of \<open>get_random_user\<close> leaves its
  payload with exactly 60 seconds.
\<close>

theorem ttl_written:
  "(get_random_number w = (Inr r, w') \<longrightarrow> source r = ascii ''generated'' \<longrightarrow>
      entries w' (ascii ''random_number'') = Some (json_dumps (data r), now w' + 30) \<and>
      lookup w' (ascii ''random_number'') = Some (json_dumps (data r)) \<and>
      ttl w' (ascii ''random_number'') = Some 30) \<and>
   (get_random_user w = (Inr r, w') \<longrightarrow> source r = ascii ''generated'' \<longrightarrow>
      entries w' (ascii ''random_user'') = Some (json_dumps (data r), now w' + 60) \<and>
      lookup w' (ascii ''random_user'') = Some (json_dumps (data r)) \<and>
      ttl w' (ascii ''random_user'') = Some 60)"
proof (intro conjI impI)
  assume a: "get_random_number w = (Inr r, w')" "source r = ascii ''generated''"
  from get_random_number_generated [OF a] obtain w1 where
    w': "w' = w1\<lparr>reachable := stl (stl (reachable w)), rng := stl (stl (rng w)),
                  now := now w + random_delay (1 / 2) 2 w,
                  entries := (entries w)(ascii ''random_number'' \<mapsto>
                    (json_dumps (data r), now w + random_delay (1 / 2) 2 w + 30))\<rparr>"
    by blast
  show "entries w' (ascii ''random_number'') = Some (json_dumps (data r), now w' + 30)"
    and "lookup w' (ascii ''random_number'') = Some (json_dumps (data r))"
    and "ttl w' (ascii ''random_number'') = Some 30"
    by (simp_all add: w' lookup_def ttl_def)
next
  assume a: "get_random_user w = (Inr r, w')" "source r = ascii ''generated''"
  from get_random_user_generated [OF a] obtain w1 where
    w': "w' = w1\<lparr>reachable := stl (stl (reachable w)),
                  rng := stl (stl (stl (stl (stl (stl (rng w)))))),
                  now := now w + random_delay (1 / 2) 3 w,
                  entries := (entries w)(ascii ''random_user'' \<mapsto>
                    (json_dumps (data r), now w + random_delay (1 / 2) 3 w + 60))\<rparr>"
    by blast
  show "entries w' (ascii ''random_user'') = Some (json_dumps (data r), now w' + 60)"
    and "lookup w' (ascii ''random_user'') = Some (json_dumps (data r))"
    and "ttl w' (ascii ''random_user'') = Some 60"
    by (simp_all add: w' lookup_def ttl_def)
qed

theorem ttl_written_witness:
  "get_random_number world0 = (Inr number0, snd (get_random_number world0)) \<and>
   source number0 = ascii ''generated'' \<and>
   ttl (snd (get_random_number world0)) (ascii ''random_number'') = Some 30 \<and>
   lookup (snd (get_random_number world0)) (ascii ''random_number'')
     = Some (json_dumps (data number0)) \<and>
   get_random_user world0 = (Inr user0, snd (get_random_user world0)) \<and>
   source user0 = ascii ''generated'' \<and>
   ttl (snd (get_random_user world0)) (ascii ''random_user'') = Some 60 \<and>
   lookup (snd (get_random_user world0)) (ascii ''random_user'') = Some (json_dumps (data user0))"
proof -
  have n: "get_random_number world0 = (Inr number0, snd (get_random_number world0))"
    using get_random_number_world0_number0 by (simp add: prod_eq_iff)
  have u: "get_random_user world0 = (Inr user0, snd (get_random_user world0))"
    using get_random_user_world0 by (simp add: prod_eq_iff)
  from ttl_written [of world0 number0 "snd (get_random_number world0)"]
    ttl_written [of world0 user0 "snd (get_random_user world0)"] n u source0
  show ?thesis by blast
qed

lemma scalar_names:
  "s \<in> set first_names \<Longrightarrow> c \<in> set s \<Longrightarrow> scalar c"
  "s \<in> set last_names \<Longrightarrow> c \<in> set s \<Longrightarrow> scalar c"
  by (auto simp: first_names_def last_names_def scalar_def)

lemma number_payload_flat: "flat_object [(ascii ''number'', JInt n)]"
  by (simp add: flat_object_def flat_def scalar_ascii)

lemma user_payload_flat:
  assumes "f \<in> set first_names" and "l \<in> set last_names"
  shows "flat_object
           [(ascii ''id'', JInt uid), (ascii ''name'', JStr (f @ ascii '' '' @ l)),
            (ascii ''age'', JInt age),
            (ascii ''email'', JStr (ascii ''user'' @ str_of_int m @ ascii ''@example.com''))]"
proof -
  have "distinct [ascii ''id'', ascii ''name'', ascii ''age'', ascii ''email'']"
    by (simp add: ascii_def)
  moreover have "\<forall>c\<in>set (f @ ascii '' '' @ l). scalar c"
    using assms scalar_names scalar_ascii by auto
  moreover have "\<forall>c\<in>set (ascii ''user'' @ str_of_int m @ ascii ''@example.com''). scalar c"
    using scalar_str_of_int scalar_ascii by auto
  ultimately show ?thesis
    by (simp add: flat_object_def flat_def scalar_ascii)
qed

text \<open>
  C5. A payload that either handler has generated is read back from its JSON text as
  the same value: \<open>json.loads\<close> of \<open>json.dumps\<close> of the payload returns the payload.
\<close>

theorem payload_round_trip:
  "(fst (get_random_number w) = Inr r \<longrightarrow> source r = ascii ''generated'' \<longrightarrow>
      json_loads (json_dumps (data r)) = Inr (data r)) \<and>
   (fst (get_random_user w) = Inr r \<longrightarrow> source r = ascii ''generated'' \<longrightarrow>
      json_loads (json_dumps (data r)) = Inr (data r))"
proof (intro conjI impI)
  assume a: "fst (get_random_number w) = Inr r" "source r = ascii ''generated''"
  then have "get_random_number w = (Inr r, snd (get_random_number w))"
    by (simp add: prod_eq_iff)
  from get_random_number_generated [OF this a(2)]
  obtain n where "data r = JObj [(ascii ''number'', JInt n)]" by blast
  then show "json_loads (json_dumps (data r)) = Inr (data r)"
    using flat_object_round_trip [OF number_payload_flat] by simp
next
  assume a: "fst (get_random_user w) = Inr r" "source r = ascii ''generated''"
  then have "get_random_user w = (Inr r, snd (get_random_user w))"
    by (simp add: prod_eq_iff)
  from get_random_user_generated [OF this a(2)]
  obtain uid i j age m where
    "data r = user_payload uid (first_names ! (i mod 5)) (last_names ! (j mod 5)) age m"
    by blast
  then show "json_loads (json_dumps (data r)) = Inr (data r)"
    using flat_object_round_trip [OF user_payload_flat [OF drawn_names]]
    by (simp only: user_payload_def)
qed

theorem payload_round_trip_witness:
  "fst (get_random_number world0) = Inr number0 \<and> source number0 = ascii ''generated'' \<and>
   json_loads (json_dumps (data number0)) = Inr (data number0) \<and>
   fst (get_random_user world0) = Inr user0 \<and> source user0 = ascii ''generated'' \<and>
   json_loads (json_dumps (data user0)) = Inr (data user0)"
  using payload_round_trip [of world0 number0] payload_round_trip [of world0 user0]
    get_random_number_world0_number0 get_random_user_world0 source0
  by blast

lemma json_dumps_object_nonempty: "json_dumps (JObj kvs) \<noteq> []"
  by (simp add: json_dumps_object del: json_dumps.simps)

lemma get_random_number_hit:
  assumes "RedisClient_pool w \<noteq> None" and "shd (reachable w)"
    and "lookup w (ascii ''random_number'') = Some s" and "s \<noteq> []" and "json_loads s = Inr v"
  shows "get_random_number w =
           (Inr \<lparr>data = v, source = ascii ''cache''\<rparr>, w\<lparr>reachable := stl (reachable w)\<rparr>)"
  using assms
  by (simp add: get_random_number_run [OF get_redis_pool [OF assms(1)]] truthy_def)

lemma get_random_user_hit:
  assumes "RedisClient_pool w \<noteq> None" and "shd (reachable w)"
    and "lookup w (ascii ''random_user'') = Some s" and "s \<noteq> []" and "json_loads s = Inr v"
  shows "get_random_user w =
           (Inr \<lparr>data = v, source = ascii ''cache''\<rparr>, w\<lparr>reachable := stl (reachable w)\<rparr>)"
  using assms
  by (simp add: get_random_user_run [OF get_redis_pool [OF assms(1)]] truthy_def)

lemma lookup_None_not_truthy: "lookup w key = None \<Longrightarrow> \<not> truthy (lookup w key)"
  by (simp add: truthy_def)

text \<open>
  C1. When the key of a handler is absent from the store, the connection is acquired and
  both commands reach the server, the handler answers with source \<open>generated\<close> and leaves
  the serialized payload under its key; the next call of the same handler, any time
  before the time to live has run out, answers with source \<open>cache\<close> and the same data.
\<close>

theorem cache_population:
  "(lookup w (ascii ''random_number'') = None \<longrightarrow> get_redis w = (Inr c, w1) \<longrightarrow>
    shd (reachable w) \<longrightarrow> shd (stl (reachable w)) \<longrightarrow>
      (\<exists>r w'. get_random_number w = (Inr r, w') \<and> source r = ascii ''generated'' \<and>
         lookup w' (ascii ''random_number'') = Some (json_dumps (data r)) \<and>
         (\<forall>d. 0 \<le> d \<longrightarrow> d < 30 \<longrightarrow> shd (reachable w') \<longrightarrow>
            fst (get_random_number (elapse d w'))
              = Inr \<lparr>data = data r, source = ascii ''cache''\<rparr>))) \<and>
   (lookup w (ascii ''random_user'') = None \<longrightarrow> get_redis w = (Inr c, w1) \<longrightarrow>
    shd (reachable w) \<longrightarrow> shd (stl (reachable w)) \<longrightarrow>
      (\<exists>r w'. get_random_user w = (Inr r, w') \<and> source r = ascii ''generated'' \<and>
         lookup w' (ascii ''random_user'') = Some (json_dumps (data r)) \<and>
         (\<forall>d. 0 \<le> d \<longrightarrow> d < 60 \<longrightarrow> shd (reachable w') \<longrightarrow>
            fst (get_random_user (elapse d w'))
              = Inr \<lparr>data = data r, source = ascii ''cache''\<rparr>)))"
proof (intro conjI impI)
  assume absent: "lookup w (ascii ''random_number'') = None"
    and g: "get_redis w = (Inr c, w1)"
    and net: "shd (reachable w)" "shd (stl (reachable w))"
  define p where "p = JObj [(ascii ''number'', JInt (1 + int (shd (stl (rng w)) mod 100)))]"
  define t where "t = now w + random_delay (1 / 2) 2 w"
  define w' where
    "w' = w1\<lparr>reachable := stl (stl (reachable w)), rng := stl (stl (rng w)), now := t,
              entries := (entries w)(ascii ''random_number'' \<mapsto> (json_dumps p, t + 30))\<rparr>"
  have first: "get_random_number w = (Inr \<lparr>data = p, source = ascii ''generated''\<rparr>, w')"
    using net lookup_None_not_truthy [OF absent]
    by (simp add: get_random_number_run [OF g] Let_def p_def t_def w'_def del: json_dumps.simps)
  have stored: "lookup w' (ascii ''random_number'') = Some (json_dumps p)"
    by (simp add: w'_def lookup_def del: json_dumps.simps)
  have rt: "json_loads (json_dumps p) = Inr p"
    unfolding p_def by (rule flat_object_round_trip [OF number_payload_flat])
  have ne: "json_dumps p \<noteq> []" unfolding p_def by (rule json_dumps_object_nonempty)
  have second: "fst (get_random_number (elapse d w')) = Inr \<lparr>data = p, source = ascii ''cache''\<rparr>"
    if d: "0 \<le> d" "d < 30" and r: "shd (reachable w')" for d
  proof -
    have pool: "RedisClient_pool (elapse d w') \<noteq> None"
      using get_redis_Inr(1) [OF g] by (simp add: elapse_def w'_def)
    have r': "shd (reachable (elapse d w'))" using r by (simp add: elapse_def)
    have l: "lookup (elapse d w') (ascii ''random_number'') = Some (json_dumps p)"
      using d by (simp add: elapse_def w'_def lookup_def del: json_dumps.simps)
    show ?thesis by (simp add: get_random_number_hit [OF pool r' l ne rt])
  qed
  show "\<exists>r w'. get_random_number w = (Inr r, w') \<and> source r = ascii ''generated'' \<and>
          lookup w' (ascii ''random_number'') = Some (json_dumps (data r)) \<and>
          (\<forall>d. 0 \<le> d \<longrightarrow> d < 30 \<longrightarrow> shd (reachable w') \<longrightarrow>
             fst (get_random_number (elapse d w'))
               = Inr \<lparr>data = data r, source = ascii ''cache''\<rparr>)"
    apply (rule exI [of _ "\<lparr>data = p, source = ascii ''generated''\<rparr>"], rule exI [of _ w'])
    using first stored second by simp
next
  assume absent: "lookup w (ascii ''random_user'') = None"
    and g: "get_redis w = (Inr c, w1)"
    and net: "shd (reachable w)" "shd (stl (reachable w))"
  define p where
    "p = user_payload (1000 + int (shd (stl (rng w)) mod 9000))
           (first_names ! (shd (stl (stl (rng w))) mod 5))
           (last_names ! (shd (stl (stl (stl (rng w)))) mod 5))
           (18 + int (shd (stl (stl (stl (stl (rng w))))) mod 48))
           (100 + int (shd (stl (stl (stl (stl (stl (rng w)))))) mod 900))"
  define t where "t = now w + random_delay (1 / 2) 3 w"
  define w' where
    "w' = w1\<lparr>reachable := stl (stl (reachable w)),
              rng := stl (stl (stl (stl (stl (stl (rng w)))))), now := t,
              entries := (entries w)(ascii ''random_user'' \<mapsto> (json_dumps p, t + 60))\<rparr>"
  have first: "get_random_user w = (Inr \<lparr>data = p, source = ascii ''generated''\<rparr>, w')"
    using net lookup_None_not_truthy [OF absent]
    by (simp add: get_random_user_run [OF g] Let_def p_def t_def w'_def del: json_dumps.simps)
  have stored: "lookup w' (ascii ''random_user'') = Some (json_dumps p)"
    by (simp add: w'_def lookup_def del: json_dumps.simps)
  have rt: "json_loads (json_dumps p) = Inr p"
    unfolding p_def user_payload_def
    by (rule flat_object_round_trip [OF user_payload_flat [OF drawn_names]])
  have ne: "json_dumps p \<noteq> []"
    unfolding p_def user_payload_def by (rule json_dumps_object_nonempty)
  have second: "fst (get_random_user (elapse d w')) = Inr \<lparr>data = p, source = ascii ''cache''\<rparr>"
    if d: "0 \<le> d" "d < 60" and r: "shd (reachable w')" for d
  proof -
    have pool: "RedisClient_pool (elapse d w') \<noteq> None"
      using get_redis_Inr(1) [OF g] by (simp add: elapse_def w'_def)
    have r': "shd (reachable (elapse d w'))" using r by (simp add: elapse_def)
    have l: "lookup (elapse d w') (ascii ''random_user'') = Some (json_dumps p)"
      using d by (simp add: elapse_def w'_def lookup_def del: json_dumps.simps)
    show ?thesis by (simp add: get_random_user_hit [OF pool r' l ne rt])
  qed
  show "\<exists>r w'. get_random_user w = (Inr r, w') \<and> source r = ascii ''generated'' \<and>
          lookup w' (ascii ''random_user'') = Some (json_dumps (data r)) \<and>
          (\<forall>d. 0 \<le> d \<longrightarrow> d < 60 \<longrightarrow> shd (reachable w') \<longrightarrow>
             fst (get_random_user (elapse d w'))
               = Inr \<lparr>data = data r, source = ascii ''cache''\<rparr>)"
    apply (rule exI [of _ "\<lparr>data = p, source = ascii ''generated''\<rparr>"], rule exI [of _ w'])
    using first stored second by simp
qed

lemma world0_facts:
  "lookup world0 key = None" "shd (reachable world0)" "shd (stl (reachable world0))"
  by (simp_all add: world0_def lookup_def)

lemma reachable_after_world0:
  "shd (reachable (snd (get_random_number world0)))"
  "shd (reachable (snd (get_random_user world0)))"
  by (simp_all add: get_random_number_run [OF get_redis_world0_pool0]
      get_random_user_run [OF get_redis_world0_pool0] Let_def world0_facts
      truthy_def del: json_dumps.simps)
     (simp_all add: world1_def world0_def)

theorem cache_population_witness:
  "lookup world0 (ascii ''random_number'') = None \<and> lookup world0 (ascii ''random_user'') = None \<and>
   get_redis world0 = (Inr \<lparr>connection_pool = pool0\<rparr>, world1) \<and>
   shd (reachable world0) \<and> shd (stl (reachable world0)) \<and>
   fst (get_random_number world0) = Inr number0 \<and>
   fst (get_random_user world0) = Inr user0 \<and>
   (0::real) \<le> 10 \<and> (10::real) < 30 \<and> (10::real) < 60 \<and>
   shd (reachable (snd (get_random_number world0))) \<and>
   shd (reachable (snd (get_random_user world0))) \<and>
   fst (get_random_number (elapse 10 (snd (get_random_number world0))))
     = Inr \<lparr>data = data number0, source = ascii ''cache''\<rparr> \<and>
   fst (get_random_user (elapse 10 (snd (get_random_user world0))))
     = Inr \<lparr>data = data user0, source = ascii ''cache''\<rparr>"
proof -
  note c = cache_population [of world0 "\<lparr>connection_pool = pool0\<rparr>" world1]
  from c [THEN conjunct1, rule_format, OF world0_facts(1) get_redis_world0_pool0 world0_facts(2,3)]
  obtain r w' where
    n: "get_random_number world0 = (Inr r, w')"
      "\<forall>d. 0 \<le> d \<longrightarrow> d < 30 \<longrightarrow> shd (reachable w') \<longrightarrow>
         fst (get_random_number (elapse d w')) = Inr \<lparr>data = data r, source = ascii ''cache''\<rparr>"
    by blast
  from c [THEN conjunct2, rule_format, OF world0_facts(1) get_redis_world0_pool0 world0_facts(2,3)]
  obtain ru wu where
    u: "get_random_user world0 = (Inr ru, wu)"
      "\<forall>d. 0 \<le> d \<longrightarrow> d < 60 \<longrightarrow> shd (reachable wu) \<longrightarrow>
         fst (get_random_user (elapse d wu)) = Inr \<lparr>data = data ru, source = ascii ''cache''\<rparr>"
    by blast
  have rn: "r = number0" "w' = snd (get_random_number world0)"
    using n(1) get_random_number_world0_number0 by simp_all
  have rru: "ru = user0" "wu = snd (get_random_user world0)"
    using u(1) get_random_user_world0 by simp_all
  have "fst (get_random_number (elapse 10 (snd (get_random_number world0))))
          = Inr \<lparr>data = data number0, source = ascii ''cache''\<rparr>"
    using n(2) [rule_format, of 10] reachable_after_world0(1) by (simp add: rn)
  moreover have "fst (get_random_user (elapse 10 (snd (get_random_user world0))))
          = Inr \<lparr>data = data user0, source = ascii ''cache''\<rparr>"
    using u(2) [rule_format, of 10] reachable_after_world0(2) by (simp add: rru)
  ultimately show ?thesis
    using world0_facts get_redis_world0_pool0 get_random_number_world0_number0
      get_random_user_world0 reachable_after_world0
    by simp
qed

lemma get_cached_data_entries:
  "get_cached_data key w = (res, w1) \<Longrightarrow> entries w1 = entries w"
proof (cases "get_redis w")
  case (Pair a w0)
  assume r: "get_cached_data key w = (res, w1)"
  show ?thesis
  proof (cases a)
    case (Inl e)
    with Pair r show ?thesis by (simp add: get_cached_data_failed)
  next
    case (Inr c)
    with Pair have g: "get_redis w = (Inr c, w0)" by simp
    from r get_redis_Inr(2) [OF g] show ?thesis
      by (auto simp: get_cached_data_run [OF g])
  qed
qed

lemma get_cached_data_Inr:
  assumes "get_cached_data key w = (Inr cached, w1)"
  shows "\<exists>c w0. get_redis w = (Inr c, w0) \<and> shd (reachable w) \<and> cached = lookup w key \<and>
           w1 = w0\<lparr>reachable := stl (reachable w)\<rparr>"
proof (cases "get_redis w")
  case (Pair a w0)
  show ?thesis
  proof (cases a)
    case (Inl e)
    with Pair assms show ?thesis by (simp add: get_cached_data_failed)
  next
    case (Inr c)
    with Pair have g: "get_redis w = (Inr c, w0)" by simp
    from assms show ?thesis
      by (auto simp: get_cached_data_run [OF g] g split: if_splits)
  qed
qed

lemma get_random_number_entries_on_failure:
  assumes "get_random_number w = (Inl e, w')"
  shows "entries w' = entries w"
proof (cases "get_redis w")
  case (Pair a w0)
  show ?thesis
  proof (cases a)
    case (Inl x)
    with Pair assms show ?thesis by (simp add: get_random_number_failed)
  next
    case (Inr c)
    with Pair have g: "get_redis w = (Inr c, w0)" by simp
    from assms get_redis_Inr(2) [OF g] show ?thesis
      by (auto simp: get_random_number_run [OF g] Let_def split: if_splits sum.splits)
  qed
qed

lemma get_random_user_entries_on_failure:
  assumes "get_random_user w = (Inl e, w')"
  shows "entries w' = entries w"
proof (cases "get_redis w")
  case (Pair a w0)
  show ?thesis
  proof (cases a)
    case (Inl x)
    with Pair assms show ?thesis by (simp add: get_random_user_failed)
  next
    case (Inr c)
    with Pair have g: "get_redis w = (Inr c, w0)" by simp
    from assms get_redis_Inr(2) [OF g] show ?thesis
      by (auto simp: get_random_user_run [OF g] Let_def split: if_splits sum.splits)
  qed
qed

text \<open>
  C6. When the read of the cache fails, the handler raises the same error, in the world
  the failed read left: it generates nothing. When the read finds nothing and the write
  does not reach the server, the handler raises the \<open>ConnectionError\<close> of the write. In
  every call that raises, the store is left as it was.
\<close>

theorem store_errors_propagate:
  "(get_cached_data (ascii ''random_number'') w = (Inl e, w1) \<longrightarrow>
      get_random_number w = (Inl e, w1) \<and> entries w1 = entries w) \<and>
   (get_cached_data (ascii ''random_number'') w = (Inr cached, w1) \<longrightarrow> \<not> truthy cached \<longrightarrow>
    \<not> shd (reachable w1) \<longrightarrow>
      (\<exists>w'. get_random_number w = (Inl ConnectionError, w') \<and> entries w' = entries w)) \<and>
   (get_random_number w = (Inl e, w') \<longrightarrow> entries w' = entries w) \<and>
   (get_cached_data (ascii ''random_user'') w = (Inl e, w1) \<longrightarrow>
      get_random_user w = (Inl e, w1) \<and> entries w1 = entries w) \<and>
   (get_cached_data (ascii ''random_user'') w = (Inr cached, w1) \<longrightarrow> \<not> truthy cached \<longrightarrow>
    \<not> shd (reachable w1) \<longrightarrow>
      (\<exists>w'. get_random_user w = (Inl ConnectionError, w') \<and> entries w' = entries w)) \<and>
   (get_random_user w = (Inl e, w') \<longrightarrow> entries w' = entries w)"
proof (intro conjI impI)
  assume a: "get_cached_data (ascii ''random_number'') w = (Inl e, w1)"
  then show "get_random_number w = (Inl e, w1)"
    by (simp add: get_random_number_def io_bind_def Let_def)
  from a show "entries w1 = entries w" by (rule get_cached_data_entries)
next
  assume a: "get_cached_data (ascii ''random_number'') w = (Inr cached, w1)"
    and miss: "\<not> truthy cached" and down: "\<not> shd (reachable w1)"
  from get_cached_data_Inr [OF a] obtain c w0 where
    g: "get_redis w = (Inr c, w0)" and r: "shd (reachable w)"
    and cached: "cached = lookup w (ascii ''random_number'')"
    and w1: "w1 = w0\<lparr>reachable := stl (reachable w)\<rparr>"
    by blast
  have "\<not> shd (stl (reachable w))" using down by (simp add: w1)
  with r miss get_redis_Inr(2) [OF g]
  show "\<exists>w'. get_random_number w = (Inl ConnectionError, w') \<and> entries w' = entries w"
    by (simp add: get_random_number_run [OF g] Let_def cached)
next
  assume "get_random_number w = (Inl e, w')"
  then show "entries w' = entries w" by (rule get_random_number_entries_on_failure)
next
  assume a: "get_cached_data (ascii ''random_user'') w = (Inl e, w1)"
  then show "get_random_user w = (Inl e, w1)"
    by (simp add: get_random_user_def io_bind_def Let_def)
  from a show "entries w1 = entries w" by (rule get_cached_data_entries)
next
  assume a: "get_cached_data (ascii ''random_user'') w = (Inr cached, w1)"
    and miss: "\<not> truthy cached" and down: "\<not> shd (reachable w1)"
  from get_cached_data_Inr [OF a] obtain c w0 where
    g: "get_redis w = (Inr c, w0)" and r: "shd (reachable w)"
    and cached: "cached = lookup w (ascii ''random_user'')"
    and w1: "w1 = w0\<lparr>reachable := stl (reachable w)\<rparr>"
    by blast
  have "\<not> shd (stl (reachable w))" using down by (simp add: w1)
  with r miss get_redis_Inr(2) [OF g]
  show "\<exists>w'. get_random_user w = (Inl ConnectionError, w') \<and> entries w' = entries w"
    by (simp add: get_random_user_run [OF g] Let_def cached)
next
  assume "get_random_user w = (Inl e, w')"
  then show "entries w' = entries w" by (rule get_random_user_entries_on_failure)
qed

lemma get_redis_world0_reachable:
  "get_redis (world0\<lparr>reachable := s\<rparr>) = (Inr \<lparr>connection_pool = pool0\<rparr>, world1\<lparr>reachable := s\<rparr>)"
  by (simp add: get_redis_def world0_def world1_def pool0_def ascii_def format_getenv_def Let_def
      url_port_def port_ok_def is_digit_def nat_of_digits_def)

lemma world_down_runs:
  "fst (get_cached_data key world_down) = Inl ConnectionError"
  "fst (get_random_number world_down) = Inl ConnectionError"
  "fst (get_random_user world_down) = Inl ConnectionError"
  unfolding world_down_def
  by (simp_all add: get_cached_data_run [OF get_redis_world0_reachable]
      get_random_number_run [OF get_redis_world0_reachable]
      get_random_user_run [OF get_redis_world0_reachable])

lemma world_flaky_runs:
  "fst (get_cached_data (ascii s) world_flaky) = Inr None"
  "\<not> shd (reachable (snd (get_cached_data (ascii s) world_flaky)))"
  "fst (get_random_number world_flaky) = Inl ConnectionError"
  "fst (get_random_user world_flaky) = Inl ConnectionError"
  unfolding world_flaky_def
  by (simp_all add: get_cached_data_run [OF get_redis_world0_reachable]
      get_random_number_run [OF get_redis_world0_reachable]
      get_random_user_run [OF get_redis_world0_reachable] Let_def truthy_def encodable_ascii
      del: json_dumps.simps)
     (simp_all add: world0_def world1_def lookup_def)

theorem store_errors_propagate_witness:
  "fst (get_cached_data (ascii ''random_number'') world_down) = Inl ConnectionError \<and>
   fst (get_random_number world_down) = Inl ConnectionError \<and>
   entries (snd (get_random_number world_down)) = entries world_down \<and>
   fst (get_cached_data (ascii ''random_user'') world_down) = Inl ConnectionError \<and>
   fst (get_random_user world_down) = Inl ConnectionError \<and>
   entries (snd (get_random_user world_down)) = entries world_down \<and>
   fst (get_cached_data (ascii ''random_number'') world_flaky) = Inr None \<and>
   \<not> truthy None \<and>
   \<not> shd (reachable (snd (get_cached_data (ascii ''random_number'') world_flaky))) \<and>
   fst (get_random_number world_flaky) = Inl ConnectionError \<and>
   entries (snd (get_random_number world_flaky)) = entries world_flaky \<and>
   fst (get_cached_data (ascii ''random_user'') world_flaky) = Inr None \<and>
   \<not> shd (reachable (snd (get_cached_data (ascii ''random_user'') world_flaky))) \<and>
   fst (get_random_user world_flaky) = Inl ConnectionError \<and>
   entries (snd (get_random_user world_flaky)) = entries world_flaky"
proof -
  note down_n = store_errors_propagate
    [where w = world_down and e = ConnectionError
       and ?w1.0 = "snd (get_cached_data (ascii ''random_number'') world_down)"
       and w' = "snd (get_random_number world_down)"]
  note down_u = store_errors_propagate
    [where w = world_down and e = ConnectionError
       and ?w1.0 = "snd (get_cached_data (ascii ''random_user'') world_down)"
       and w' = "snd (get_random_user world_down)"]
  note flaky_n = store_errors_propagate
    [where w = world_flaky and e = ConnectionError and cached = None
       and ?w1.0 = "snd (get_cached_data (ascii ''random_number'') world_flaky)"
       and w' = "snd (get_random_number world_flaky)"]
  note flaky_u = store_errors_propagate
    [where w = world_flaky and e = ConnectionError and cached = None
       and ?w1.0 = "snd (get_cached_data (ascii ''random_user'') world_flaky)"
       and w' = "snd (get_random_user world_flaky)"]
  have t: "\<not> truthy None" by (simp add: truthy_def)
  have 1: "entries (snd (get_random_number world_down)) = entries world_down"
    using down_n world_down_runs by (simp add: prod_eq_iff)
  have 2: "entries (snd (get_random_user world_down)) = entries world_down"
    using down_u world_down_runs by (simp add: prod_eq_iff)
  have 3: "entries (snd (get_random_number world_flaky)) = entries world_flaky"
    using flaky_n world_flaky_runs by (simp add: prod_eq_iff)
  have 4: "entries (snd (get_random_user world_flaky)) = entries world_flaky"
    using flaky_u world_flaky_runs by (simp add: prod_eq_iff)
  show ?thesis
    using world_down_runs world_flaky_runs t 1 2 3 4 by simp
qed

lemma get_redis_entries_update:
  "get_redis (w\<lparr>entries := E\<rparr>) = (fst (get_redis w), (snd (get_redis w))\<lparr>entries := E\<rparr>)"
  by (simp add: get_redis_def Let_def split: option.splits sum.splits if_splits)

lemma lookup_other:
  "k \<noteq> key \<Longrightarrow> lookup (w\<lparr>entries := (entries w)(k := x)\<rparr>) key = lookup w key"
  by (simp add: lookup_def split: option.splits)

lemma random_delay_entries: "random_delay a b (w\<lparr>entries := E\<rparr>) = random_delay a b w"
  by (simp add: random_delay_def)

lemma get_random_number_frame:
  assumes "k \<noteq> ascii ''random_number''"
  shows "get_random_number (w\<lparr>entries := (entries w)(k := x)\<rparr>) =
           (fst (get_random_number w),
            (snd (get_random_number w))
              \<lparr>entries := (entries (snd (get_random_number w)))(k := x)\<rparr>)"
proof (cases "get_redis w")
  case (Pair a w0)
  show ?thesis
  proof (cases a)
    case (Inl e)
    with Pair have g: "get_redis w = (Inl e, w0)" by simp
    have g': "get_redis (w\<lparr>entries := (entries w)(k := x)\<rparr>)
              = (Inl e, w0\<lparr>entries := (entries w)(k := x)\<rparr>)"
      by (simp add: get_redis_entries_update g)
    show ?thesis
      by (simp add: get_random_number_failed [OF g] get_random_number_failed [OF g'])
  next
    case (Inr c)
    with Pair have g: "get_redis w = (Inr c, w0)" by simp
    have g': "get_redis (w\<lparr>entries := (entries w)(k := x)\<rparr>)
              = (Inr c, w0\<lparr>entries := (entries w)(k := x)\<rparr>)"
      by (simp add: get_redis_entries_update g)
    have tw: "((entries w)(k := x))(ascii ''random_number'' \<mapsto> v)
              = ((entries w)(ascii ''random_number'' \<mapsto> v))(k := x)" for v
      using assms by (simp add: fun_upd_twist)
    show ?thesis
      using get_redis_Inr(2) [OF g]
      by (simp add: get_random_number_run [OF g] get_random_number_run [OF g']
          lookup_other [OF assms] random_delay_entries Let_def tw del: json_dumps.simps)
  qed
qed

lemma get_random_user_frame:
  assumes "k \<noteq> ascii ''random_user''"
  shows "get_random_user (w\<lparr>entries := (entries w)(k := x)\<rparr>) =
           (fst (get_random_user w),
            (snd (get_random_user w))
              \<lparr>entries := (entries (snd (get_random_user w)))(k := x)\<rparr>)"
proof (cases "get_redis w")
  case (Pair a w0)
  show ?thesis
  proof (cases a)
    case (Inl e)
    with Pair have g: "get_redis w = (Inl e, w0)" by simp
    have g': "get_redis (w\<lparr>entries := (entries w)(k := x)\<rparr>)
              = (Inl e, w0\<lparr>entries := (entries w)(k := x)\<rparr>)"
      by (simp add: get_redis_entries_update g)
    show ?thesis
      by (simp add: get_random_user_failed [OF g] get_random_user_failed [OF g'])
  next
    case (Inr c)
    with Pair have g: "get_redis w = (Inr c, w0)" by simp
    have g': "get_redis (w\<lparr>entries := (entries w)(k := x)\<rparr>)
              = (Inr c, w0\<lparr>entries := (entries w)(k := x)\<rparr>)"
      by (simp add: get_redis_entries_update g)
    have tw: "((entries w)(k := x))(ascii ''random_user'' \<mapsto> v)
              = ((entries w)(ascii ''random_user'' \<mapsto> v))(k := x)" for v
      using assms by (simp add: fun_upd_twist)
    show ?thesis
      using get_redis_Inr(2) [OF g]
      by (simp add: get_random_user_run [OF g] get_random_user_run [OF g']
          lookup_other [OF assms] random_delay_entries Let_def tw del: json_dumps.simps)
  qed
qed

lemma get_random_number_keeps:
  assumes "k \<noteq> ascii ''random_number''"
  shows "entries (snd (get_random_number w)) k = entries w k"
proof (cases "get_redis w")
  case (Pair a w0)
  show ?thesis
  proof (cases a)
    case (Inl e)
    with Pair show ?thesis by (simp add: get_random_number_failed)
  next
    case (Inr c)
    with Pair have g: "get_redis w = (Inr c, w0)" by simp
    show ?thesis
      using get_redis_Inr(2) [OF g] assms
      by (simp add: get_random_number_run [OF g] Let_def del: json_dumps.simps)
  qed
qed

lemma get_random_user_keeps:
  assumes "k \<noteq> ascii ''random_user''"
  shows "entries (snd (get_random_user w)) k = entries w k"
proof (cases "get_redis w")
  case (Pair a w0)
  show ?thesis
  proof (cases a)
    case (Inl e)
    with Pair show ?thesis by (simp add: get_random_user_failed)
  next
    case (Inr c)
    with Pair have g: "get_redis w = (Inr c, w0)" by simp
    show ?thesis
      using get_redis_Inr(2) [OF g] assms
      by (simp add: get_random_user_run [OF g] Let_def del: json_dumps.simps)
  qed
qed

lemma keys_differ: "ascii ''random_user'' \<noteq> ascii ''random_number''"
  by (simp add: ascii_def)

text \<open>
  C10. A call of \<open>get_random_number\<close> leaves the value and the expiry of every key other
  than \<open>random_number\<close> as they were, \<open>random_user\<close> among them, and what those keys hold
  has no influence on the call: with another content \<open>x\<close> under such a key the call gives
  the same answer and the same world, up to that content. The same holds for
  \<open>get_random_user\<close> and \<open>random_user\<close>.
\<close>

theorem handlers_frame:
  "(k \<noteq> ascii ''random_number'' \<longrightarrow>
      entries (snd (get_random_number w)) k = entries w k \<and>
      get_random_number (w\<lparr>entries := (entries w)(k := x)\<rparr>) =
        (fst (get_random_number w),
         (snd (get_random_number w))\<lparr>entries := (entries (snd (get_random_number w)))(k := x)\<rparr>)) \<and>
   (k \<noteq> ascii ''random_user'' \<longrightarrow>
      entries (snd (get_random_user w)) k = entries w k \<and>
      get_random_user (w\<lparr>entries := (entries w)(k := x)\<rparr>) =
        (fst (get_random_user w),
         (snd (get_random_user w))\<lparr>entries := (entries (snd (get_random_user w)))(k := x)\<rparr>)) \<and>
   entries (snd (get_random_number w)) (ascii ''random_user'') = entries w (ascii ''random_user'') \<and>
   entries (snd (get_random_user w)) (ascii ''random_number'') = entries w (ascii ''random_number'')"
proof (intro conjI impI)
  assume k: "k \<noteq> ascii ''random_number''"
  show "entries (snd (get_random_number w)) k = entries w k"
    by (rule get_random_number_keeps [OF k])
  show "get_random_number (w\<lparr>entries := (entries w)(k := x)\<rparr>) =
          (fst (get_random_number w),
           (snd (get_random_number w))\<lparr>entries := (entries (snd (get_random_number w)))(k := x)\<rparr>)"
    by (rule get_random_number_frame [OF k])
next
  assume k: "k \<noteq> ascii ''random_user''"
  show "entries (snd (get_random_user w)) k = entries w k"
    by (rule get_random_user_keeps [OF k])
  show "get_random_user (w\<lparr>entries := (entries w)(k := x)\<rparr>) =
          (fst (get_random_user w),
           (snd (get_random_user w))\<lparr>entries := (entries (snd (get_random_user w)))(k := x)\<rparr>)"
    by (rule get_random_user_frame [OF k])
next
  show "entries (snd (get_random_number w)) (ascii ''random_user'') = entries w (ascii ''random_user'')"
    by (rule get_random_number_keeps [OF keys_differ])
  show "entries (snd (get_random_user w)) (ascii ''random_number'') = entries w (ascii ''random_number'')"
    by (rule get_random_user_keeps [OF keys_differ [symmetric]])
qed

theorem handlers_frame_witness:
  "ascii ''other'' \<noteq> ascii ''random_number'' \<and> ascii ''other'' \<noteq> ascii ''random_user'' \<and>
   entries (snd (get_random_number world0)) (ascii ''other'') = None \<and>
   entries (snd (get_random_user world0)) (ascii ''other'') = None \<and>
   get_random_number (world0\<lparr>entries := [ascii ''other'' \<mapsto> (ascii ''v'', 9)]\<rparr>) =
     (Inr number0,
      (snd (get_random_number world0))
        \<lparr>entries := (entries (snd (get_random_number world0)))(ascii ''other'' \<mapsto> (ascii ''v'', 9))\<rparr>) \<and>
   get_random_user (world0\<lparr>entries := [ascii ''other'' \<mapsto> (ascii ''v'', 9)]\<rparr>) =
     (Inr user0,
      (snd (get_random_user world0))
        \<lparr>entries := (entries (snd (get_random_user world0)))(ascii ''other'' \<mapsto> (ascii ''v'', 9))\<rparr>) \<and>
   entries (snd (get_random_number world0)) (ascii ''random_user'') = None \<and>
   entries (snd (get_random_user world0)) (ascii ''random_number'') = None"
proof -
  have k: "ascii ''other'' \<noteq> ascii ''random_number''" "ascii ''other'' \<noteq> ascii ''random_user''"
    by (simp_all add: ascii_def)
  have e: "entries world0 = Map.empty" by (simp add: world0_def)
  from handlers_frame [of "ascii ''other''" world0 "Some (ascii ''v'', 9)"] k
  show ?thesis
    by (simp add: e get_random_number_world0_number0 get_random_user_world0)
qed

end
